theory Spec2Isabelle
  imports Complex_Main
begin

section \<open>JavaScript strings and values\<close>

text \<open>
  A JavaScript string is a sequence of UTF-16 code units; every string operation of the
  plugin (\<^verbatim>\<open>indexOf\<close>, \<^verbatim>\<open>slice\<close>, \<^verbatim>\<open>endsWith\<close>, the regular expressions without the
  \<^verbatim>\<open>u\<close> flag) counts code units. A code unit is modelled as a natural number. ASCII
  literals are written with \<open>asc\<close>; the CJK characters of the source are named constants.
\<close>

type_synonym ustring = "nat list"

definition asc :: "string \<Rightarrow> ustring" where
  "asc s = map of_char s"

text \<open>Code units of the non-ASCII characters that occur in the source.\<close>

definition cTen :: nat where "cTen = 0x5341"
definition cFig :: nat where "cFig = 0x56FE"
definition cTbl :: nat where "cTbl = 0x8868"
definition cColon :: nat where "cColon = 0xFF1A"
definition cPilcrow :: nat where "cPilcrow = 0xB6"

text \<open>
  A property that may be absent: \<^verbatim>\<open>undefined\<close>, \<^verbatim>\<open>null\<close> or a string (mdast gives
  \<^verbatim>\<open>value\<close>, \<^verbatim>\<open>url\<close> and \<^verbatim>\<open>alt\<close> no other type).
\<close>

datatype jsval = Undefined | Null | Str ustring

text \<open>Truthiness: \<^verbatim>\<open>undefined\<close>, \<^verbatim>\<open>null\<close> and the empty string are falsy.\<close>

fun truthy :: "jsval \<Rightarrow> bool" where
  "truthy (Str s) = (s \<noteq> [])"
| "truthy _ = False"

text \<open>\<^verbatim>\<open>v || ''\<close> where \<open>v\<close> is a string or absent.\<close>

fun or_empty :: "jsval \<Rightarrow> ustring" where
  "or_empty (Str s) = s"
| "or_empty _ = []"

text \<open>String conversion, as a template literal \<^verbatim>\<open>${v}\<close> or \<^verbatim>\<open>+\<close> with a string does it.\<close>

fun to_string :: "jsval \<Rightarrow> ustring" where
  "to_string (Str s) = s"
| "to_string Undefined = asc ''undefined''"
| "to_string Null = asc ''null''"

text \<open>The exceptions the plugin can raise: its own \<^verbatim>\<open>Error\<close>, and the \<^verbatim>\<open>TypeError\<close> of a
  property read or method call on \<^verbatim>\<open>undefined\<close> or \<^verbatim>\<open>null\<close>.\<close>

datatype exn = Error | TypeError

text \<open>
  A JavaScript number: a finite double is a rational number; \<^verbatim>\<open>NaN\<close> and the two
  infinities are the other values.
\<close>

datatype jsnumber = Num rat | NaN | PosInf | NegInf

section \<open>Ordinal formatter: numberToChinese\<close>

definition digits :: "ustring list" where
  "digits = [[0x96F6], [0x4E00], [0x4E8C], [0x4E09], [0x56DB], [0x4E94], [0x516D],
             [0x4E03], [0x516B], [0x4E5D]]"

text \<open>
  \<^verbatim>\<open>if (!Number.isInteger(num) || num < 1 || num > 99) throw new Error(...)\<close>; then
  the single digit, or tens and ones. Past the guard \<open>num\<close> is an integer between 1 and
  99, so \<^verbatim>\<open>Math.floor(num / 10)\<close> and \<^verbatim>\<open>num % 10\<close> are integer division and remainder and
  every index into \<open>digits\<close> is in range.
\<close>

fun numberToChinese :: "jsnumber \<Rightarrow> exn + ustring" where
  "numberToChinese (Num r) =
     (if of_int \<lfloor>r\<rfloor> \<noteq> r \<or> r < 1 \<or> r > 99 then Inl Error
      else
        let num = \<lfloor>r\<rfloor> in
        if num < 10 then Inr (digits ! nat num)
        else
          let tens = num div 10;
              ones = num mod 10;
              result = (if tens = 1 then [cTen] else digits ! nat tens @ [cTen])
          in Inr (if ones \<noteq> 0 then result @ digits ! nat ones else result))"
| "numberToChinese _ = Inl Error"

text \<open>The formatter as the specification words it: the basic numeral of a digit 1..9, and
  the composition rule for two-digit numbers.\<close>

definition basic_numeral :: "int \<Rightarrow> nat" where
  "basic_numeral d =
     (if d = 1 then 0x4E00 else if d = 2 then 0x4E8C else if d = 3 then 0x4E09
      else if d = 4 then 0x56DB else if d = 5 then 0x4E94 else if d = 6 then 0x516D
      else if d = 7 then 0x4E03 else if d = 8 then 0x516B else 0x4E5D)"

definition ordinal_spec :: "int \<Rightarrow> ustring" where
  "ordinal_spec n =
     (if n < 10 then [basic_numeral n]
      else (if n div 10 = 1 then [cTen] else [basic_numeral (n div 10), cTen])
           @ (if n mod 10 = 0 then [] else [basic_numeral (n mod 10)]))"

definition cjk_numerals :: "nat set" where
  "cjk_numerals = {0x4E00, 0x4E8C, 0x4E09, 0x56DB, 0x4E94, 0x516D, 0x4E03, 0x516B, 0x4E5D, 0x5341}"

section \<open>Regular expressions\<close>

text \<open>
  The patterns of the plugin, as a syntax tree, and a backtracking matcher with the
  priorities of the ECMAScript \<^verbatim>\<open>RegExp\<close> semantics: a matcher returns the states in
  which a match of the pattern can end, most preferred first. A state is the position in
  the input, the rest of the input from there, and the captures made so far. The
  constructors are the ones the source uses: a code unit, a class of ranges and its
  negation, the dot (any code unit but a line terminator), sequence, alternative, the lazy
  and the greedy star, a numbered capture group, a negative lookahead and \<^verbatim>\<open>^\<close> (no
  pattern has the \<^verbatim>\<open>m\<close> flag, so it matches at position 0 only).
\<close>

datatype rx =
    RChar nat
  | RClass "(nat \<times> nat) list"
  | RNotClass "(nat \<times> nat) list"
  | RDot
  | RSeq rx rx
  | RAlt rx rx
  | RLazy rx
  | RStar rx
  | RGroup nat rx
  | RNotAhead rx
  | RBol
  | REps

type_synonym caps = "(nat \<times> ustring) list"
type_synonym mstate = "nat \<times> ustring \<times> caps"

definition in_ranges :: "(nat \<times> nat) list \<Rightarrow> nat \<Rightarrow> bool" where
  "in_ranges rs c = list_ex (\<lambda>(lo, hi). lo \<le> c \<and> c \<le> hi) rs"

definition line_terminator :: "nat \<Rightarrow> bool" where
  "line_terminator c = (c = 0x0A \<or> c = 0x0D \<or> c = 0x2028 \<or> c = 0x2029)"

definition one_char :: "(nat \<Rightarrow> bool) \<Rightarrow> mstate \<Rightarrow> mstate list" where
  "one_char P st = (case st of (p, s, cs) \<Rightarrow>
      (case s of [] \<Rightarrow> [] | x # xs \<Rightarrow> if P x then [(Suc p, xs, cs)] else []))"

text \<open>An iteration of a star that consumes nothing is rejected, as ECMAScript does.\<close>

definition shorter :: "mstate \<Rightarrow> mstate \<Rightarrow> bool" where
  "shorter st st' = (length (fst (snd st')) < length (fst (snd st)))"

definition set_cap :: "nat \<Rightarrow> mstate \<Rightarrow> mstate \<Rightarrow> mstate" where
  "set_cap k st st' = (case st of (p, s, cs) \<Rightarrow> (case st' of (p', s', cs') \<Rightarrow>
      (p', s', (k, take (p' - p) s) # filter (\<lambda>kv. fst kv \<noteq> k) cs')))"

function ms :: "rx \<Rightarrow> mstate \<Rightarrow> mstate list" where
  "ms (RChar c) st = one_char (\<lambda>x. x = c) st"
| "ms (RClass rs) st = one_char (in_ranges rs) st"
| "ms (RNotClass rs) st = one_char (\<lambda>x. \<not> in_ranges rs x) st"
| "ms RDot st = one_char (\<lambda>x. \<not> line_terminator x) st"
| "ms (RSeq a b) st = concat (map (ms b) (ms a st))"
| "ms (RAlt a b) st = ms a st @ ms b st"
| "ms (RLazy r) st = st # concat (map (ms (RLazy r)) (filter (shorter st) (ms r st)))"
| "ms (RStar r) st = concat (map (ms (RStar r)) (filter (shorter st) (ms r st))) @ [st]"
| "ms (RGroup k r) st = map (set_cap k st) (ms r st)"
| "ms (RNotAhead r) st = (if ms r st = [] then [st] else [])"
| "ms RBol st = (if fst st = 0 then [st] else [])"
| "ms REps st = [st]"
  by pat_completeness auto
termination
  by (relation "measures [\<lambda>(r, st). size r, \<lambda>(r, st). length (fst (snd st))]")
     (auto simp: shorter_def)

declare ms.simps [simp del]

definition rseq :: "rx list \<Rightarrow> rx" where
  "rseq rs = foldr RSeq rs REps"

definition rlit :: "ustring \<Rightarrow> rx" where
  "rlit s = rseq (map RChar s)"

text \<open>\<^verbatim>\<open>\s\<close>: the white space and line terminator code units of ECMAScript.\<close>

definition rspace :: rx where
  "rspace = RClass [(0x09, 0x0D), (0x20, 0x20), (0xA0, 0xA0), (0x1680, 0x1680),
                    (0x2000, 0x200A), (0x2028, 0x2029), (0x202F, 0x202F), (0x205F, 0x205F),
                    (0x3000, 0x3000), (0xFEFF, 0xFEFF)]"

text \<open>The first match at position \<open>p\<close>, where \<open>s\<close> is the input from \<open>p\<close> on.\<close>

definition exec :: "rx \<Rightarrow> nat \<Rightarrow> ustring \<Rightarrow> mstate option" where
  "exec r p s = (case ms r (p, s, []) of [] \<Rightarrow> None | m # _ \<Rightarrow> Some m)"

text \<open>
  The scan of a global pattern over a string, as \<^verbatim>\<open>String.prototype.replace\<close> and
  \<^verbatim>\<open>String.prototype.split\<close> do it: the leftmost match, then the next one from its end. The
  result lists the code units outside the matches and, for each match, its captures
  (capture 0 is the whole match). No pattern of the source matches the empty string; a
  match that consumes nothing is passed over, which keeps the scan total.
\<close>

datatype tok = Ch nat | Mt caps

fun scan :: "rx \<Rightarrow> nat \<Rightarrow> ustring \<Rightarrow> tok list" where
  "scan r p [] = []"
| "scan r p (x # xs) =
     (case exec r p (x # xs) of
        None \<Rightarrow> Ch x # scan r (Suc p) xs
      | Some (p', s', cs) \<Rightarrow>
          if length s' \<le> length xs
          then Mt ((0, take (p' - p) (x # xs)) # cs) # scan r p' s'
          else Ch x # scan r (Suc p) xs)"

text \<open>A replacement template: literal text and \<^verbatim>\<open>$k\<close> group references.\<close>

datatype tpiece = TLit ustring | TGrp nat

definition cap :: "caps \<Rightarrow> nat \<Rightarrow> jsval" where
  "cap cs k = (case map_of cs k of None \<Rightarrow> Undefined | Some s \<Rightarrow> Str s)"

fun expand :: "tpiece list \<Rightarrow> caps \<Rightarrow> ustring" where
  "expand [] cs = []"
| "expand (TLit s # t) cs = s @ expand t cs"
| "expand (TGrp k # t) cs = or_empty (cap cs k) @ expand t cs"

fun js_replace_toks :: "tpiece list \<Rightarrow> tok list \<Rightarrow> ustring" where
  "js_replace_toks t [] = []"
| "js_replace_toks t (Ch x # ts) = x # js_replace_toks t ts"
| "js_replace_toks t (Mt cs # ts) = expand t cs @ js_replace_toks t ts"

text \<open>\<^verbatim>\<open>s.replace(r, t)\<close> for a global pattern \<open>r\<close>.\<close>

definition js_replace :: "rx \<Rightarrow> tpiece list \<Rightarrow> ustring \<Rightarrow> ustring" where
  "js_replace r t s = js_replace_toks t (scan r 0 s)"

fun js_split_toks :: "nat \<Rightarrow> ustring \<Rightarrow> tok list \<Rightarrow> jsval list" where
  "js_split_toks n acc [] = [Str (rev acc)]"
| "js_split_toks n acc (Ch x # ts) = js_split_toks n (x # acc) ts"
| "js_split_toks n acc (Mt cs # ts) =
     Str (rev acc) # map (cap cs) [1..<Suc n] @ js_split_toks n [] ts"

text \<open>\<^verbatim>\<open>s.split(r)\<close> for a pattern with \<open>n\<close> capture groups: the text between the matches,
  and after each piece of text but the last the \<open>n\<close> captures of the match that ends it.\<close>

definition js_split :: "rx \<Rightarrow> nat \<Rightarrow> ustring \<Rightarrow> jsval list" where
  "js_split r n s = js_split_toks n [] (scan r 0 s)"

section \<open>The document tree\<close>

text \<open>
  A node of the mdast tree: its \<^verbatim>\<open>type\<close>, and the properties the plugin reads or writes
  (\<^verbatim>\<open>value\<close>, \<^verbatim>\<open>url\<close>, \<^verbatim>\<open>alt\<close>, \<^verbatim>\<open>children\<close>), each of which may be absent. \<open>Other\<close>
  stands for the node types the plugin never names (emphasis, strong, inline code, ...).
\<close>

datatype ntype =
  Text | Html | Blockquote | Image | Link | TableRow | TableCell | Paragraph | Table | Root
  | Other string

datatype node =
  Node (ntype: ntype) (nvalue: jsval) (nurl: jsval) (nalt: jsval)
       (nchildren: "node list option")

text \<open>The object literals \<^verbatim>\<open>{ type: 'text', value: v }\<close> and \<^verbatim>\<open>{ type: 'html', value: v }\<close>.\<close>

definition text_node :: "ustring \<Rightarrow> node" where
  "text_node v = Node Text (Str v) Undefined Undefined None"

definition html_node :: "ustring \<Rightarrow> node" where
  "html_node v = Node Html (Str v) Undefined Undefined None"

text \<open>Assignments to one property of a node.\<close>

definition set_value :: "node \<Rightarrow> jsval \<Rightarrow> node" where
  "set_value n v = Node (ntype n) v (nurl n) (nalt n) (nchildren n)"

definition set_children :: "node \<Rightarrow> node list \<Rightarrow> node" where
  "set_children n cs = Node (ntype n) (nvalue n) (nurl n) (nalt n) (Some cs)"

section \<open>Pattern rewriter: regex\<close>

text \<open>
  One iteration of the loop of \<^verbatim>\<open>regex(node, regex, template)\<close>, for the replacement
  function \<open>rep\<close> = \<^verbatim>\<open>v => v.replace(regex, template)\<close>. A node that is not text, html or
  blockquote is pushed as it is. \<^verbatim>\<open>child.value.replace\<close> raises a TypeError when the
  value is absent.
\<close>

definition regex_child :: "(ustring \<Rightarrow> ustring) \<Rightarrow> node \<Rightarrow> exn + node" where
  "regex_child rep child =
     (if ntype child \<noteq> Text \<and> ntype child \<noteq> Html \<and> ntype child \<noteq> Blockquote then Inr child
      else case nvalue child of
             Str v \<Rightarrow>
               if rep v = v then
                 (if ntype child = Html then Inr child else Inr (text_node v))
               else Inr (html_node (rep v))
           | _ \<Rightarrow> Inl TypeError)"

text \<open>The loop: the list of the nodes pushed to \<^verbatim>\<open>newChildren\<close>, or the exception.\<close>

fun regex_children :: "(ustring \<Rightarrow> ustring) \<Rightarrow> node list \<Rightarrow> exn + node list" where
  "regex_children rep [] = Inr []"
| "regex_children rep (child # rest) =
     (case regex_child rep child of
        Inl e \<Rightarrow> Inl e
      | Inr c \<Rightarrow> (case regex_children rep rest of Inl e \<Rightarrow> Inl e | Inr cs \<Rightarrow> Inr (c # cs)))"

text \<open>\<^verbatim>\<open>for (const child of node.children)\<close> raises a TypeError when there are no children.\<close>

definition regex_with :: "(ustring \<Rightarrow> ustring) \<Rightarrow> node \<Rightarrow> exn + node list" where
  "regex_with rep node =
     (case nchildren node of None \<Rightarrow> Inl TypeError | Some cs \<Rightarrow> regex_children rep cs)"

definition regex :: "node \<Rightarrow> rx \<Rightarrow> tpiece list \<Rightarrow> exn + node list" where
  "regex node r t = regex_with (js_replace r t) node"

section \<open>Inline pattern splicer: transformCustomFootnotes\<close>

definition ends_with :: "ustring \<Rightarrow> ustring \<Rightarrow> bool" where
  "ends_with s suffix = (length suffix \<le> length s \<and> drop (length s - length suffix) s = suffix)"

definition starts_with :: "ustring \<Rightarrow> ustring \<Rightarrow> bool" where
  "starts_with s pre = (take (length pre) s = pre)"

text \<open>
  The test of the \<^verbatim>\<open>while\<close> loop on the first three nodes of \<open>children\<close>, with the
  short-circuit order of the source: \<^verbatim>\<open>child1.value.endsWith\<close> and
  \<^verbatim>\<open>child3.value.startsWith\<close> raise a TypeError on a text node without a string value.
  The result holds the three strings the match branch uses: the value of the first node,
  the text of the link's first child (\<^verbatim>\<open>child2.children[0].value || ''\<close>) and the value of
  the third node.
\<close>

definition custom_match :: "node list \<Rightarrow> exn + (ustring \<times> ustring \<times> ustring) option" where
  "custom_match children =
     (case children of
        [] \<Rightarrow> Inr None
      | child1 # rest1 \<Rightarrow>
          if ntype child1 \<noteq> Text then Inr None
          else (case nvalue child1 of
              Str v1 \<Rightarrow>
                if \<not> ends_with v1 (asc ''^['') then Inr None
                else (case rest1 of
                    [] \<Rightarrow> Inr None
                  | child2 # rest2 \<Rightarrow>
                      if ntype child2 \<noteq> Link then Inr None
                      else (case nchildren child2 of
                          None \<Rightarrow> Inr None
                        | Some [] \<Rightarrow> Inr None
                        | Some (l # ls) \<Rightarrow>
                            (case rest2 of
                               [] \<Rightarrow> Inr None
                             | child3 # rest3 \<Rightarrow>
                                 if ntype child3 \<noteq> Text then Inr None
                                 else (case nvalue child3 of
                                     Str v3 \<Rightarrow>
                                       if starts_with v3 (asc '']'')
                                       then Inr (Some (v1, or_empty (nvalue l), v3))
                                       else Inr None
                                   | _ \<Rightarrow> Inl TypeError))))
            | _ \<Rightarrow> Inl TypeError))"

text \<open>
  The \<^verbatim>\<open>while (children.length > 0)\<close> loop; the result is \<open>newChildren\<close>. On a match
  it pushes one text node, drops three nodes and puts the rest of the third node's text
  in front of the remaining nodes unless that rest is empty.
\<close>

lemma custom_match_length:
  "custom_match children = Inr (Some m) \<Longrightarrow> 3 \<le> length children"
  by (auto simp: custom_match_def split: list.splits if_splits jsval.splits option.splits)

function splice :: "node list \<Rightarrow> exn + node list" where
  "splice children =
     (if children = [] then Inr []
      else case custom_match children of
          Inl e \<Rightarrow> Inl e
        | Inr (Some (v1, linkText, v3)) \<Rightarrow>
            (let remainingText = drop 1 v3;
                 remainingChildren = drop 3 children;
                 pushed = text_node (take (length v1 - 2) v1 @ asc ''[^'' @ linkText @ asc '']'')
             in case splice (if remainingText \<noteq> [] then text_node remainingText # remainingChildren
                             else remainingChildren) of
                  Inl e \<Rightarrow> Inl e
                | Inr out \<Rightarrow> Inr (pushed # out))
        | Inr None \<Rightarrow>
            (case splice (tl children) of
               Inl e \<Rightarrow> Inl e
             | Inr out \<Rightarrow> Inr (hd children # out)))"
  by pat_completeness auto
termination
  by (relation "measure length") (auto dest: custom_match_length)

declare splice.simps [simp del]

text \<open>
  The merge of adjacent text nodes: \<open>lastNode\<close> is the last element of
  \<open>mergedChildren\<close>. \<^verbatim>\<open>lastNode.value += currentNode.value\<close> concatenates the two values
  as strings when one of them is a string, which holds for every text node that \<open>splice\<close>
  returns.
\<close>

fun merge_from :: "node \<Rightarrow> node list \<Rightarrow> node list" where
  "merge_from lastNode [] = [lastNode]"
| "merge_from lastNode (currentNode # rest) =
     (if ntype lastNode = Text \<and> ntype currentNode = Text
      then merge_from (set_value lastNode
                         (Str (to_string (nvalue lastNode) @ to_string (nvalue currentNode)))) rest
      else lastNode # merge_from currentNode rest)"

fun merge_text :: "node list \<Rightarrow> node list" where
  "merge_text [] = []"
| "merge_text (first # rest) = merge_from first rest"

definition transformCustomFootnotes :: "node \<Rightarrow> exn + node list" where
  "transformCustomFootnotes node =
     (case nchildren node of
        None \<Rightarrow> Inl TypeError
      | Some cs \<Rightarrow> (case splice cs of Inl e \<Rightarrow> Inl e | Inr newChildren \<Rightarrow> Inr (merge_text newChildren)))"

section \<open>Traversal state\<close>

text \<open>
  The counters \<^verbatim>\<open>imgRegex.imgNum\<close>, \<^verbatim>\<open>tblRegex.tblNum\<close>, \<^verbatim>\<open>footnoteRegex.footNoteNum\<close> and
  the module variable \<^verbatim>\<open>collectedFootnotes\<close>.
\<close>

record footnote =
  num :: nat
  content :: jsval

record state =
  imgNum :: nat
  tblNum :: nat
  footNoteNum :: nat
  collectedFootnotes :: "footnote list"

text \<open>The decimal digits of a counter, as a template literal prints it.\<close>

fun show_nat :: "nat \<Rightarrow> ustring" where
  "show_nat n = (if n < 10 then [48 + n] else show_nat (n div 10) @ [48 + n mod 10])"

declare show_nat.simps [simp del]

section \<open>Footnote collector: footnoteRegex\<close>

text \<open>\<^verbatim>\<open>/(\[\^(?!\<close>table\<^verbatim>\<open>|\<close>figure\<^verbatim>\<open>)([^\]]*?)\])/g\<close>, with the two reserved characters
  U+8868 and U+56FE.\<close>

definition footnoteCaptureRegex :: rx where
  "footnoteCaptureRegex =
     RGroup 1 (rseq [RChar 0x5B, RChar 0x5E, RNotAhead (RAlt (RChar cTbl) (RChar cFig)),
                     RGroup 2 (RLazy (RNotClass [(0x5D, 0x5D)])), RChar 0x5D])"

definition reference :: "nat \<Rightarrow> ustring" where
  "reference footnoteNum =
     asc ''<a class=\"comment_forward_link\" href=\"#comment_backward_link_'' @ show_nat footnoteNum
     @ asc ''\" id=\"comment_forward_link_'' @ show_nat footnoteNum
     @ asc ''\">['' @ show_nat footnoteNum @ asc '']</a>''"

text \<open>\<^verbatim>\<open>parts[i]\<close>, which is \<^verbatim>\<open>undefined\<close> past the end.\<close>

definition js_nth :: "jsval list \<Rightarrow> nat \<Rightarrow> jsval" where
  "js_nth xs i = (if i < length xs then xs ! i else Undefined)"

text \<open>
  The loop \<^verbatim>\<open>for (let i = 0; i < parts.length; i++)\<close>: the state after it and the nodes
  it pushes. An empty part is skipped; at \<open>i mod 3 = 0\<close> the part is text; at
  \<open>i mod 3 = 1\<close> it is a whole marker, the next part is its content, and \<open>i\<close> advances
  by two.
\<close>

function parts_loop :: "jsval list \<Rightarrow> nat \<Rightarrow> state \<Rightarrow> state \<times> node list" where
  "parts_loop parts i st =
     (if i < length parts then
        let part = js_nth parts i in
        if \<not> truthy part then parts_loop parts (i + 1) st
        else if i mod 3 = 0 then
          (case parts_loop parts (i + 1) st of
             (st', out) \<Rightarrow> (st', text_node (to_string part) # out))
        else if i mod 3 = 1 then
          let footnoteContent = js_nth parts (i + 1);
              footnoteNum = footNoteNum st + 1;
              st1 = st\<lparr>footNoteNum := footnoteNum,
                       collectedFootnotes := collectedFootnotes st
                          @ [\<lparr>num = footnoteNum, content = footnoteContent\<rparr>]\<rparr>
          in (case parts_loop parts (i + 2) st1 of
                (st', out) \<Rightarrow> (st', html_node (reference footnoteNum) # out))
        else parts_loop parts (i + 1) st
      else (st, []))"
  by pat_completeness auto
termination
  by (relation "measure (\<lambda>(parts, i, st). length parts - i)") auto

declare parts_loop.simps [simp del]

fun footnote_children :: "state \<Rightarrow> node list \<Rightarrow> state \<times> node list" where
  "footnote_children st [] = (st, [])"
| "footnote_children st (child # rest) =
     (if ntype child \<noteq> Text \<and> ntype child \<noteq> Html then
        (case footnote_children st rest of (st', out) \<Rightarrow> (st', child # out))
      else
        let text = or_empty (nvalue child);
            parts = js_split footnoteCaptureRegex 2 text
        in if length parts = 1 then
             (case footnote_children st rest of (st', out) \<Rightarrow> (st', child # out))
           else
             (case parts_loop parts 0 st of
                (st1, pushed) \<Rightarrow>
                  (case footnote_children st1 rest of (st', out) \<Rightarrow> (st', pushed @ out))))"

definition footnoteRegex :: "state \<Rightarrow> node \<Rightarrow> exn + state \<times> node list" where
  "footnoteRegex st node =
     (case nchildren node of None \<Rightarrow> Inl TypeError | Some cs \<Rightarrow> Inr (footnote_children st cs))"

section \<open>Figure numbering: imgRegex\<close>

text \<open>\<^verbatim>\<open>s.indexOf(pat)\<close>: the first position where \<open>pat\<close> occurs, \<open>None\<close> for -1.\<close>

fun index_of :: "ustring \<Rightarrow> ustring \<Rightarrow> nat option" where
  "index_of [] pat = (if pat = [] then Some 0 else None)"
| "index_of (x # xs) pat =
     (if starts_with (x # xs) pat then Some 0 else map_option Suc (index_of xs pat))"

definition rewrite_url :: "ustring \<Rightarrow> ustring" where
  "rewrite_url imageUrl =
     (case index_of imageUrl (asc ''attachments/'') of
        None \<Rightarrow> imageUrl
      | Some attachmentsIndex \<Rightarrow>
          asc ''/attachments/'' @ drop (attachmentsIndex + length (asc ''attachments/'')) imageUrl)"

definition floatClass :: "nat \<Rightarrow> ustring" where
  "floatClass n = (if n mod 2 \<noteq> 0 then asc ''float-right'' else asc ''float-left'')"

text \<open>\<^verbatim>\<open>child.alt ? child.alt.replace(/"/g, '&quot;') : ''\<close>\<close>

definition altText :: "jsval \<Rightarrow> ustring" where
  "altText alt = (if truthy alt then js_replace (RChar 0x22) [TLit (asc ''&quot;'')] (to_string alt) else [])"

definition figureHtml :: "ustring \<Rightarrow> ustring \<Rightarrow> ustring \<Rightarrow> ustring \<Rightarrow> jsval \<Rightarrow> ustring" where
  "figureHtml cls imageUrl alt_text chineseNum alt =
     asc ''\<newline><figure class=\"image-wrap '' @ cls @ asc ''\">\<newline>  <img src=\"'' @ imageUrl
     @ asc ''\" alt=\"'' @ alt_text @ asc ''\">\<newline>  <figcaption>\<newline>    <a href=\"#img_forward_link_''
     @ [cFig] @ chineseNum @ asc ''\" id=\"img_backward_link_'' @ [cFig] @ chineseNum @ asc ''\">''
     @ [cFig] @ chineseNum @ asc ''</a>'' @ [cColon] @ to_string alt
     @ asc ''\<newline>  </figcaption>\<newline></figure>''"

text \<open>
  The loop of \<^verbatim>\<open>imgRegex\<close>. For an image: the counter is incremented,
  \<^verbatim>\<open>numberToChinese\<close> may throw, then \<^verbatim>\<open>imageUrl.indexOf\<close> raises a TypeError when the
  node has no \<^verbatim>\<open>url\<close>.
\<close>

fun img_children :: "state \<Rightarrow> node list \<Rightarrow> exn + state \<times> node list" where
  "img_children st [] = Inr (st, [])"
| "img_children st (child # rest) =
     (if ntype child \<noteq> Image then
        (case img_children st rest of Inl e \<Rightarrow> Inl e | Inr (st', out) \<Rightarrow> Inr (st', child # out))
      else
        let n = imgNum st + 1; st1 = st\<lparr>imgNum := n\<rparr> in
        case numberToChinese (Num (of_nat n)) of
          Inl e \<Rightarrow> Inl e
        | Inr chineseNum \<Rightarrow>
            (case nurl child of
               Str imageUrl \<Rightarrow>
                 (case img_children st1 rest of
                    Inl e \<Rightarrow> Inl e
                  | Inr (st', out) \<Rightarrow>
                      Inr (st', html_node (figureHtml (floatClass n) (rewrite_url imageUrl)
                                             (altText (nalt child)) chineseNum (nalt child)) # out))
             | _ \<Rightarrow> Inl TypeError))"

definition imgRegex :: "state \<Rightarrow> node \<Rightarrow> exn + state \<times> node list" where
  "imgRegex st node =
     (case nchildren node of None \<Rightarrow> Inl TypeError | Some cs \<Rightarrow> img_children st cs)"

section \<open>Table numbering: tblRegex\<close>

definition tbl_caption :: "ustring \<Rightarrow> ustring \<Rightarrow> ustring" where
  "tbl_caption chineseNum currentTblTitle =
     asc ''<p class=\"tbl_title\"><a href=\"#tbl_forward_link_'' @ [cTbl] @ chineseNum
     @ asc ''\" id=\"tbl_backward_link_'' @ [cTbl] @ chineseNum @ asc ''\">'' @ [cTbl] @ chineseNum
     @ asc ''</a>'' @ [cColon] @ currentTblTitle @ asc ''</p>''"

text \<open>The caption pushed when a table ends: the counter is incremented first.\<close>

definition push_caption :: "state \<Rightarrow> ustring \<Rightarrow> exn + state \<times> node" where
  "push_caption st currentTblTitle =
     (let st1 = st\<lparr>tblNum := tblNum st + 1\<rparr> in
      case numberToChinese (Num (of_nat (tblNum st1))) of
        Inl e \<Rightarrow> Inl e
      | Inr chineseNum \<Rightarrow> Inr (st1, html_node (tbl_caption chineseNum currentTblTitle)))"

text \<open>
  The block \<^verbatim>\<open>if (isFirstRow && child.children && child.children[0]) { ... }\<close> for a row
  \<open>child\<close>, entered with \<open>isFirstRow\<close> true: the new title, the row after the assignment
  \<^verbatim>\<open>firstCell.children[0].value = ""\<close>, and the new \<open>isFirstRow\<close>.
\<close>

definition first_row :: "ustring \<Rightarrow> node \<Rightarrow> ustring \<times> node \<times> bool" where
  "first_row currentTblTitle child =
     (case nchildren child of
        Some (firstCell # cells) \<Rightarrow>
          (case nchildren firstCell of
             Some (c0 # cs0) \<Rightarrow>
               (or_empty (nvalue c0),
                set_children child (set_children firstCell (set_value c0 (Str []) # cs0) # cells),
                False)
           | _ \<Rightarrow> (currentTblTitle, child, False))
      | _ \<Rightarrow> (currentTblTitle, child, True))"

text \<open>The loop of \<^verbatim>\<open>tblRegex\<close> with its three local variables, and the test after it.\<close>

fun tbl_children ::
  "state \<Rightarrow> bool \<Rightarrow> bool \<Rightarrow> ustring \<Rightarrow> node list \<Rightarrow> exn + state \<times> node list" where
  "tbl_children st isInTbl isFirstRow currentTblTitle [] =
     (if isInTbl then
        (case push_caption st currentTblTitle of
           Inl e \<Rightarrow> Inl e
         | Inr (st1, caption) \<Rightarrow> Inr (st1, [caption]))
      else Inr (st, []))"
| "tbl_children st isInTbl isFirstRow currentTblTitle (child # rest) =
     (if ntype child \<noteq> TableRow then
        (if isInTbl then
           (case push_caption st currentTblTitle of
              Inl e \<Rightarrow> Inl e
            | Inr (st1, caption) \<Rightarrow>
                (case tbl_children st1 False isFirstRow currentTblTitle rest of
                   Inl e \<Rightarrow> Inl e
                 | Inr (st', out) \<Rightarrow> Inr (st', caption # child # out)))
         else
           (case tbl_children st isInTbl isFirstRow currentTblTitle rest of
              Inl e \<Rightarrow> Inl e
            | Inr (st', out) \<Rightarrow> Inr (st', child # out)))
      else
        (case (if isFirstRow then first_row currentTblTitle child
               else (currentTblTitle, child, isFirstRow)) of
           (title, row, firstRow) \<Rightarrow>
             (case tbl_children st True firstRow title rest of
                Inl e \<Rightarrow> Inl e
              | Inr (st', out) \<Rightarrow> Inr (st', row # out))))"

definition tblRegex :: "state \<Rightarrow> node \<Rightarrow> exn + state \<times> node list" where
  "tblRegex st node =
     (case nchildren node of
        None \<Rightarrow> Inl TypeError
      | Some cs \<Rightarrow> tbl_children st False True [] cs)"

section \<open>The patterns and templates of the pipeline\<close>

text \<open>\<^verbatim>\<open>/%20/g\<close> and \<^verbatim>\<open>' '\<close>\<close>

definition rx_pct20 :: rx where "rx_pct20 = rlit (asc ''%20'')"
definition tp_space :: "tpiece list" where "tp_space = [TLit (asc '' '')]"

text \<open>\<^verbatim>\<open>/\[\[(#.*?)\|(.*?)\]\]/g\<close> and \<^verbatim>\<open>'<a href="$1">$2</a>'\<close>\<close>

definition rx_anchor_desc :: rx where
  "rx_anchor_desc = rseq [rlit (asc ''[[''), RGroup 1 (RSeq (RChar 0x23) (RLazy RDot)), RChar 0x7C,
                          RGroup 2 (RLazy RDot), rlit (asc '']]'')]"
definition tp_anchor_desc :: "tpiece list" where
  "tp_anchor_desc = [TLit (asc ''<a href=\"''), TGrp 1, TLit (asc ''\">''), TGrp 2, TLit (asc ''</a>'')]"

text \<open>\<^verbatim>\<open>/\[\[(#.*?)\]\]/g\<close> and \<^verbatim>\<open>'<a href="$1">$1</a>'\<close>\<close>

definition rx_anchor :: rx where
  "rx_anchor = rseq [rlit (asc ''[[''), RGroup 1 (RSeq (RChar 0x23) (RLazy RDot)), rlit (asc '']]'')]"
definition tp_anchor :: "tpiece list" where
  "tp_anchor = [TLit (asc ''<a href=\"''), TGrp 1, TLit (asc ''\">''), TGrp 1, TLit (asc ''</a>'')]"

text \<open>\<^verbatim>\<open>/\[\[(?!#)(.*?)\|(.*?)\]\]/g\<close> and \<^verbatim>\<open>'<a href="/post/$1">$2</a>'\<close>\<close>

definition rx_post_desc :: rx where
  "rx_post_desc = rseq [rlit (asc ''[[''), RNotAhead (RChar 0x23), RGroup 1 (RLazy RDot), RChar 0x7C,
                        RGroup 2 (RLazy RDot), rlit (asc '']]'')]"
definition tp_post_desc :: "tpiece list" where
  "tp_post_desc = [TLit (asc ''<a href=\"/post/''), TGrp 1, TLit (asc ''\">''), TGrp 2, TLit (asc ''</a>'')]"

text \<open>\<^verbatim>\<open>/\[\[(?!#)(.*?)\]\]/g\<close> and \<^verbatim>\<open>'<a href="/post/$1">$1</a>'\<close>\<close>

definition rx_post :: rx where
  "rx_post = rseq [rlit (asc ''[[''), RNotAhead (RChar 0x23), RGroup 1 (RLazy RDot), rlit (asc '']]'')]"
definition tp_post :: "tpiece list" where
  "tp_post = [TLit (asc ''<a href=\"/post/''), TGrp 1, TLit (asc ''\">''), TGrp 1, TLit (asc ''</a>'')]"

text \<open>\<^verbatim>\<open>/\[\^(\<close>figure\<^verbatim>\<open>.*?)\]/g\<close> and
  \<^verbatim>\<open>'<a href="#img_backward_link_$1" id="img_forward_link_$1">$1</a>'\<close>\<close>

definition rx_img_ref :: rx where
  "rx_img_ref = rseq [rlit (asc ''[^''), RGroup 1 (RSeq (RChar cFig) (RLazy RDot)), RChar 0x5D]"
definition tp_img_ref :: "tpiece list" where
  "tp_img_ref = [TLit (asc ''<a href=\"#img_backward_link_''), TGrp 1,
                 TLit (asc ''\" id=\"img_forward_link_''), TGrp 1, TLit (asc ''\">''), TGrp 1,
                 TLit (asc ''</a>'')]"

text \<open>\<^verbatim>\<open>/\[\^(\<close>table\<^verbatim>\<open>.*?)\]/g\<close> and
  \<^verbatim>\<open>'<a href="#tbl_backward_link_$1" id="tbl_forward_link_$1">$1</a>'\<close>\<close>

definition rx_tbl_ref :: rx where
  "rx_tbl_ref = rseq [rlit (asc ''[^''), RGroup 1 (RSeq (RChar cTbl) (RLazy RDot)), RChar 0x5D]"
definition tp_tbl_ref :: "tpiece list" where
  "tp_tbl_ref = [TLit (asc ''<a href=\"#tbl_backward_link_''), TGrp 1,
                 TLit (asc ''\" id=\"tbl_forward_link_''), TGrp 1, TLit (asc ''\">''), TGrp 1,
                 TLit (asc ''</a>'')]"

text \<open>The corner brackets U+300C and U+300D: \<^verbatim>\<open>/\<close>[\<^verbatim>\<open>([^\<close>]\<^verbatim>\<open>]*?)\<close>]\<^verbatim>\<open>/g\<close>, and the template
  that wraps the group in \<^verbatim>\<open><em>\<close>.\<close>

definition rx_emph :: rx where
  "rx_emph = rseq [RChar 0x300C, RGroup 1 (RLazy (RNotClass [(0x300D, 0x300D)])), RChar 0x300D]"
definition tp_emph :: "tpiece list" where
  "tp_emph = [TLit [0x300C], TLit (asc ''<em>''), TGrp 1, TLit (asc ''</em>''), TLit [0x300D]]"

text \<open>\<^verbatim>\<open>/([\u4e00-\u9fa5])([a-zA-Z0-9])/g\<close>, \<^verbatim>\<open>/([a-zA-Z0-9])([\u4e00-\u9fa5])/g\<close> and
  \<^verbatim>\<open>'$1 $2'\<close>\<close>

definition cjk :: rx where "cjk = RClass [(0x4E00, 0x9FA5)]"
definition alnum :: rx where "alnum = RClass [(0x61, 0x7A), (0x41, 0x5A), (0x30, 0x39)]"

definition rx_cjk_latin :: rx where "rx_cjk_latin = RSeq (RGroup 1 cjk) (RGroup 2 alnum)"
definition rx_latin_cjk :: rx where "rx_latin_cjk = RSeq (RGroup 1 alnum) (RGroup 2 cjk)"
definition tp_spaced :: "tpiece list" where "tp_spaced = [TGrp 1, TLit (asc '' ''), TGrp 2]"

text \<open>\<^verbatim>\<open>/(\u4e00-\u9fa5)\s+([\u4e00-\u9fa5])/g\<close> and \<^verbatim>\<open>'$1$2'\<close>: the first group is
  the three code units U+4E00, \<^verbatim>\<open>-\<close>, U+9FA5, not a class.\<close>

definition rx_collapse :: rx where
  "rx_collapse = rseq [RGroup 1 (rlit [0x4E00, 0x2D, 0x9FA5]), rspace, RStar rspace, RGroup 2 cjk]"
definition tp_joined :: "tpiece list" where "tp_joined = [TGrp 1, TGrp 2]"

text \<open>The white corner brackets U+300E and U+300F with the white space inside them, and
  \<^verbatim>\<open>'<span style="display: none;">$1</span>'\<close>\<close>

definition rx_invisible :: rx where
  "rx_invisible = RGroup 1 (RAlt (RSeq (RChar 0x300E) (RStar rspace)) (RSeq (RStar rspace) (RChar 0x300F)))"
definition tp_invisible :: "tpiece list" where
  "tp_invisible = [TLit (asc ''<span style=\"display: none;\">''), TGrp 1, TLit (asc ''</span>'')]"

text \<open>Three em dashes U+2014 and the rest of the line, the first dash outside the group.\<close>

definition rx_attribution :: rx where
  "rx_attribution = RSeq (RChar 0x2014) (RGroup 1 (rseq [RChar 0x2014, RChar 0x2014, RStar RDot]))"
definition tp_attribution :: "tpiece list" where
  "tp_attribution = [TLit (asc ''<p style=\"text-align: right; text-indent: 0; padding: 0 2px 0 0;\">''),
                     TGrp 1, TLit (asc ''</p>'')]"

text \<open>\<^verbatim>\<open>/^\.Right{(.*)}/g\<close> and its five siblings.\<close>

definition rx_directive :: "string \<Rightarrow> rx" where
  "rx_directive name = rseq [RBol, RChar 0x2E, rlit (asc name), RChar 0x7B, RGroup 1 (RStar RDot), RChar 0x7D]"
definition tp_wrap :: "string \<Rightarrow> tpiece list" where
  "tp_wrap opening = [TLit (asc opening), TGrp 1, TLit (asc ''</p>'')]"

section \<open>The visitor\<close>

text \<open>A pass maps the state and the node to the new state and the new children, which
  the visitor assigns to \<^verbatim>\<open>node.children\<close>.\<close>

type_synonym pass = "state \<Rightarrow> node \<Rightarrow> exn + state \<times> node list"

definition pure_pass :: "(node \<Rightarrow> exn + node list) \<Rightarrow> pass" where
  "pure_pass f st node = (case f node of Inl e \<Rightarrow> Inl e | Inr cs \<Rightarrow> Inr (st, cs))"

definition rx_pass :: "rx \<Rightarrow> tpiece list \<Rightarrow> pass" where
  "rx_pass r t = pure_pass (\<lambda>node. regex node r t)"

fun run_passes :: "pass list \<Rightarrow> state \<Rightarrow> node \<Rightarrow> exn + state \<times> node" where
  "run_passes [] st node = Inr (st, node)"
| "run_passes (f # fs) st node =
     (case f st node of
        Inl e \<Rightarrow> Inl e
      | Inr (st', cs) \<Rightarrow> run_passes fs st' (set_children node cs))"

text \<open>The statements \<^verbatim>\<open>node.children = ...\<close> of the visitor, in the order of the source.\<close>

definition passes :: "pass list" where
  "passes =
    [pure_pass transformCustomFootnotes,
     rx_pass rx_anchor_desc tp_anchor_desc,
     rx_pass rx_anchor tp_anchor,
     rx_pass rx_post_desc tp_post_desc,
     rx_pass rx_post tp_post,
     footnoteRegex,
     imgRegex,
     rx_pass rx_img_ref tp_img_ref,
     tblRegex,
     rx_pass rx_tbl_ref tp_tbl_ref,
     rx_pass rx_emph tp_emph,
     rx_pass rx_cjk_latin tp_spaced,
     rx_pass rx_latin_cjk tp_spaced,
     rx_pass rx_collapse tp_joined,
     rx_pass rx_collapse tp_joined,
     rx_pass rx_collapse tp_joined,
     rx_pass rx_invisible tp_invisible,
     rx_pass rx_attribution tp_attribution,
     rx_pass (rx_directive ''Right'') (tp_wrap '' <p style=\"text-align: right;  text-indent: 0;\">''),
     rx_pass (rx_directive ''Center'') (tp_wrap ''<p style=\"text-align: center; text-indent: 0;\">''),
     rx_pass (rx_directive ''Left'') (tp_wrap ''  <p style=\"text-align: left;   text-indent: 0;\">''),
     rx_pass (rx_directive ''right'')
       (tp_wrap '' <p style=\"font-style: italic; text-align: right;  text-indent: 0;\">''),
     rx_pass (rx_directive ''center'')
       (tp_wrap ''<p style=\"font-style: italic; text-align: center; text-indent: 0;\">''),
     rx_pass (rx_directive ''left'')
       (tp_wrap ''  <p style=\"font-style: italic; text-align: left;   text-indent: 0;\">'')]"

text \<open>The first loop of the visitor: \<^verbatim>\<open>%20\<close> becomes a space in the value of a text or
  html child whose value is not empty.\<close>

definition decode_child :: "node \<Rightarrow> node" where
  "decode_child child =
     (if (ntype child = Text \<or> ntype child = Html) \<and> truthy (nvalue child)
      then set_value child (Str (js_replace rx_pct20 tp_space (to_string (nvalue child))))
      else child)"

definition visitor :: "state \<Rightarrow> node \<Rightarrow> exn + state \<times> node" where
  "visitor st node =
     (case nchildren node of
        None \<Rightarrow> Inr (st, node)
      | Some cs \<Rightarrow> run_passes passes st (set_children node (map decode_child cs)))"

section \<open>The traversal\<close>

text \<open>
  \<^verbatim>\<open>visit(tree, ['paragraph', 'table', 'tableCell'], visitor)\<close> of unist-util-visit: a
  preorder walk that calls the visitor on the nodes of the three types and then walks the
  children the node has after the call, left to right.
\<close>

definition is_visited :: "ntype \<Rightarrow> bool" where
  "is_visited k = (k = Paragraph \<or> k = Table \<or> k = TableCell)"

fun height :: "node \<Rightarrow> nat" where
  "height (Node k v u a None) = 0"
| "height (Node k v u a (Some cs)) = Suc (fold max (map height cs) 0)"

definition hlist :: "node list \<Rightarrow> nat" where
  "hlist cs = fold max (map height cs) 0"

text \<open>No pass makes the tree under a node higher: a node in the new children is one of
  the old children, one of them with a value assigned below it, or a new leaf. This bounds
  the walk.\<close>

lemma fold_max_le: "fold max xs a \<le> (h::nat) \<longleftrightarrow> a \<le> h \<and> (\<forall>x\<in>set xs. x \<le> h)"
  by (induction xs arbitrary: a) auto

lemma hlist_le: "hlist cs \<le> h \<longleftrightarrow> (\<forall>c\<in>set cs. height c \<le> h)"
  by (simp add: hlist_def fold_max_le)

lemma height_Some: "nchildren n = Some cs \<Longrightarrow> height n = Suc (hlist cs)"
  by (cases n) (simp add: hlist_def)

lemma height_set_value [simp]: "height (set_value n v) = height n"
  by (cases n; cases "nchildren n") (simp_all add: set_value_def)

lemma height_set_children [simp]: "height (set_children n cs) = Suc (hlist cs)"
  by (simp add: set_children_def hlist_def)

lemma height_leaf [simp]: "height (text_node v) = 0" "height (html_node v) = 0"
  by (simp_all add: text_node_def html_node_def)


lemma splice_height:
  "splice cs = Inr out \<Longrightarrow> \<forall>c\<in>set cs. height c \<le> h \<Longrightarrow> \<forall>c\<in>set out. height c \<le> h"
proof (induction cs arbitrary: out rule: splice.induct)
  case (1 children)
  note IH = "1.IH"
  show ?case
  proof (cases "children = []")
    case True
    with "1.prems" show ?thesis by (simp add: splice.simps)
  next
    case ne: False
    show ?thesis
    proof (cases "custom_match children")
      case (Inl e)
      with "1.prems" ne show ?thesis by (simp add: splice.simps)
    next
      case (Inr m)
      show ?thesis
      proof (cases m)
        case None
        with Inr ne "1.prems"(1) obtain out' where
          o: "splice (tl children) = Inr out'" "out = hd children # out'"
          by (auto simp: splice.simps [of children] split: sum.splits)
        have "\<forall>c\<in>set (tl children). height c \<le> h"
          using "1.prems"(2) ne by (auto dest: list.set_sel(2))
        with IH(1) [OF ne Inr None o(1)] have "\<forall>c\<in>set out'. height c \<le> h" by blast
        with "1.prems"(2) ne o(2) show ?thesis by auto
      next
        case (Some t)
        obtain v1 linkText v3 where t: "t = (v1, linkText, v3)" by (cases t) auto
        let ?next = "if drop 1 v3 \<noteq> [] then text_node (drop 1 v3) # drop 3 children
                     else drop 3 children"
        from Inr Some t ne "1.prems"(1) obtain out' where
          o: "splice ?next = Inr out'"
             "out = text_node (take (length v1 - 2) v1 @ asc ''[^'' @ linkText @ asc '']'') # out'"
          by (auto simp: splice.simps [of children] Let_def split: sum.splits
                   simp del: One_nat_def drop_eq_Nil drop_eq_Nil2)
        have n: "\<forall>c\<in>set ?next. height c \<le> h"
          using "1.prems"(2) by (auto dest: in_set_dropD)
        have "\<forall>c\<in>set out'. height c \<le> h"
          by (rule IH(2) [OF ne Inr Some t [symmetric] refl refl refl refl o(1) n])
        with o(2) show ?thesis by auto
      qed
    qed
  qed
qed

lemma merge_from_height:
  "height l \<le> h \<Longrightarrow> \<forall>c\<in>set cs. height c \<le> h \<Longrightarrow> \<forall>c\<in>set (merge_from l cs). height c \<le> h"
proof (induction cs arbitrary: l)
  case Nil
  then show ?case by simp
next
  case (Cons a cs)
  show ?case
  proof (cases "ntype l = Text \<and> ntype a = Text")
    case True
    have "\<forall>c\<in>set (merge_from (set_value l (Str (to_string (nvalue l) @ to_string (nvalue a)))) cs).
            height c \<le> h"
      using Cons.prems by (intro Cons.IH) simp_all
    with True show ?thesis by simp
  next
    case False
    have "\<forall>c\<in>set (merge_from a cs). height c \<le> h"
      using Cons.prems by (intro Cons.IH) simp_all
    with False Cons.prems show ?thesis by auto
  qed
qed

lemma merge_text_height:
  "\<forall>c\<in>set cs. height c \<le> h \<Longrightarrow> \<forall>c\<in>set (merge_text cs). height c \<le> h"
proof (cases cs)
  case Nil
  then show ?thesis by simp
next
  case (Cons a l)
  assume "\<forall>c\<in>set cs. height c \<le> h"
  with Cons show ?thesis using merge_from_height [of a h l] by simp
qed

lemma regex_child_height: "regex_child rep c = Inr c' \<Longrightarrow> height c' \<le> height c"
  by (auto simp: regex_child_def split: if_splits jsval.splits)

lemma regex_children_height:
  "regex_children rep cs = Inr out \<Longrightarrow> \<forall>c\<in>set cs. height c \<le> h \<Longrightarrow> \<forall>c\<in>set out. height c \<le> h"
proof (induction cs arbitrary: out)
  case Nil
  then show ?case by simp
next
  case (Cons a cs)
  from Cons.prems(1) obtain a' out' where
    o: "regex_child rep a = Inr a'" "regex_children rep cs = Inr out'" "out = a' # out'"
    by (auto split: sum.splits)
  from Cons.IH [OF o(2)] Cons.prems(2) regex_child_height [OF o(1)] o(3)
  show ?case by auto
qed

lemma parts_loop_leaves:
  "parts_loop parts i st = (st', out) \<Longrightarrow> c \<in> set out \<Longrightarrow> height c = 0"
proof (induction parts i st arbitrary: st' out rule: parts_loop.induct)
  case (1 parts i st)
  show ?case
  proof (cases "i < length parts")
    case False
    with "1.prems" show ?thesis by (simp add: parts_loop.simps)
  next
    case lt: True
    show ?thesis
    proof (cases "truthy (js_nth parts i)")
      case False
      with lt "1.prems" "1.IH"(1) [OF lt refl False] show ?thesis
        by (simp add: parts_loop.simps [of parts i])
    next
      case tr: True
      consider "i mod 3 = 0" | "i mod 3 = 1" | "i mod 3 \<noteq> 0" "i mod 3 \<noteq> 1" by blast
      then show ?thesis
      proof cases
        case 1
        with lt tr "1.prems"(1) obtain out' where
          o: "parts_loop parts (i + 1) st = (st', out')"
             "out = text_node (to_string (js_nth parts i)) # out'"
          by (auto simp: parts_loop.simps [of parts i] Let_def split: prod.splits)
        from "1.IH"(2) [OF lt refl _ 1 o(1)] tr "1.prems"(2) o(2) show ?thesis by auto
      next
        case 2
        let ?st1 = "st\<lparr>footNoteNum := footNoteNum st + 1,
                       collectedFootnotes := collectedFootnotes st
                          @ [\<lparr>num = footNoteNum st + 1, content = js_nth parts (i + 1)\<rparr>]\<rparr>"
        from 2 lt tr "1.prems"(1) obtain out' where
          o: "parts_loop parts (i + 2) ?st1 = (st', out')"
             "out = html_node (reference (footNoteNum st + 1)) # out'"
          by (auto simp: parts_loop.simps [of parts i] Let_def split: prod.splits)
        have "i mod 3 \<noteq> 0" using 2 by simp
        from "1.IH"(3) [OF lt refl _ this 2 refl refl refl o(1)] tr "1.prems"(2) o(2)
        show ?thesis by auto
      next
        case 3
        with lt tr "1.prems" "1.IH"(4) [OF lt refl _ 3] show ?thesis
          by (simp add: parts_loop.simps [of parts i])
      qed
    qed
  qed
qed


lemma footnote_children_height:
  "footnote_children st cs = (st', out) \<Longrightarrow> \<forall>c\<in>set cs. height c \<le> h
     \<Longrightarrow> \<forall>c\<in>set out. height c \<le> h"
proof (induction cs arbitrary: st st' out)
  case Nil
  then show ?case by simp
next
  case (Cons a cs)
  let ?parts = "js_split footnoteCaptureRegex 2 (or_empty (nvalue a))"
  show ?case
  proof (cases "(ntype a \<noteq> Text \<and> ntype a \<noteq> Html) \<or> length ?parts = 1")
    case True
    with Cons.prems(1) obtain out' where
      o: "footnote_children st cs = (st', out')" "out = a # out'"
      by (auto simp: Let_def split: prod.splits if_splits)
    from Cons.IH [OF o(1)] Cons.prems(2) o(2) show ?thesis by auto
  next
    case False
    with Cons.prems(1) obtain st1 pushed out' where
      o: "parts_loop ?parts 0 st = (st1, pushed)" "footnote_children st1 cs = (st', out')"
         "out = pushed @ out'"
      by (auto simp: Let_def split: prod.splits if_splits)
    from Cons.IH [OF o(2)] Cons.prems(2) o(3) parts_loop_leaves [OF o(1)] show ?thesis by auto
  qed
qed

lemma img_children_height:
  "img_children st cs = Inr (st', out) \<Longrightarrow> \<forall>c\<in>set cs. height c \<le> h
     \<Longrightarrow> \<forall>c\<in>set out. height c \<le> h"
proof (induction cs arbitrary: st st' out)
  case Nil
  then show ?case by simp
next
  case (Cons a cs)
  show ?case
  proof (cases "ntype a \<noteq> Image")
    case True
    with Cons.prems(1) obtain out' where
      o: "img_children st cs = Inr (st', out')" "out = a # out'"
      by (auto split: sum.splits)
    from Cons.IH [OF o(1)] Cons.prems(2) o(2) show ?thesis by auto
  next
    case False
    with Cons.prems(1) obtain st1 v out' where
      o: "img_children st1 cs = Inr (st', out')" "out = html_node v # out'"
      by (auto simp: Let_def split: sum.splits jsval.splits)
    from Cons.IH [OF o(1)] Cons.prems(2) o(2) show ?thesis by auto
  qed
qed

lemma first_row_height: "first_row t child = (t', row, b) \<Longrightarrow> height row = height child"
proof (cases "nchildren child")
  case None
  assume "first_row t child = (t', row, b)"
  with None show ?thesis by (simp add: first_row_def)
next
  case (Some cells)
  assume f: "first_row t child = (t', row, b)"
  show ?thesis
  proof (cases cells)
    case Nil
    with f Some show ?thesis by (simp add: first_row_def)
  next
    case (Cons firstCell rest)
    show ?thesis
    proof (cases "nchildren firstCell")
      case None
      with f Some Cons show ?thesis by (simp add: first_row_def)
    next
      case inner: (Some ks)
      show ?thesis
      proof (cases ks)
        case Nil
        with f Some Cons inner show ?thesis by (simp add: first_row_def)
      next
        case (Cons c0 cs0)
        with f Some \<open>cells = firstCell # rest\<close> inner
        have "row = set_children child (set_children firstCell (set_value c0 (Str []) # cs0) # rest)"
          by (simp add: first_row_def)
        moreover have "height firstCell = Suc (hlist (c0 # cs0))"
          using inner Cons by (simp add: height_Some)
        ultimately show ?thesis
          using Some \<open>cells = firstCell # rest\<close> by (simp add: height_Some hlist_def)
      qed
    qed
  qed
qed

lemma push_caption_height: "push_caption st t = Inr (st', c) \<Longrightarrow> height c = 0"
  by (auto simp: push_caption_def Let_def split: sum.splits)

lemma tbl_children_height:
  "tbl_children st a b t cs = Inr (st', out) \<Longrightarrow> \<forall>c\<in>set cs. height c \<le> h
     \<Longrightarrow> \<forall>c\<in>set out. height c \<le> h"
proof (induction cs arbitrary: st a b t st' out)
  case Nil
  then show ?case
    by (auto split: if_splits sum.splits dest: push_caption_height)
next
  case (Cons c cs)
  show ?case
  proof (cases "ntype c = TableRow")
    case False
    show ?thesis
    proof (cases a)
      case True
      with False Cons.prems(1) obtain st1 caption out' where
        o: "push_caption st t = Inr (st1, caption)"
           "tbl_children st1 False b t cs = Inr (st', out')" "out = caption # c # out'"
        by (auto split: sum.splits)
      from Cons.IH [OF o(2)] Cons.prems(2) o(3) push_caption_height [OF o(1)]
      show ?thesis by auto
    next
      case na: False
      with False Cons.prems(1) obtain out' where
        o: "tbl_children st a b t cs = Inr (st', out')" "out = c # out'"
        by (auto split: sum.splits)
      from Cons.IH [OF o(1)] Cons.prems(2) o(2) show ?thesis by auto
    qed
  next
    case True
    obtain t1 row b1 where f: "(if b then first_row t c else (t, c, b)) = (t1, row, b1)"
      by (cases "if b then first_row t c else (t, c, b)") auto
    then have hr: "height row = height c"
      by (auto split: if_splits dest: first_row_height)
    from Cons.prems(1) True f obtain out' where
      o: "tbl_children st True b1 t1 cs = Inr (st', out')" "out = row # out'"
      by (auto split: sum.splits)
    from Cons.IH [OF o(1)] Cons.prems(2) hr o(2) show ?thesis by auto
  qed
qed

definition bounded_pass :: "pass \<Rightarrow> bool" where
  "bounded_pass f = (\<forall>st node cs st' out. nchildren node = Some cs \<longrightarrow> f st node = Inr (st', out)
      \<longrightarrow> hlist out \<le> hlist cs)"

lemma bounded_passI:
  assumes "\<And>st node cs st' out h. nchildren node = Some cs \<Longrightarrow> f st node = Inr (st', out)
     \<Longrightarrow> \<forall>c\<in>set cs. height c \<le> h \<Longrightarrow> \<forall>c\<in>set out. height c \<le> h"
  shows "bounded_pass f"
  unfolding bounded_pass_def
proof (intro allI impI)
  fix st node cs st' out
  assume a: "nchildren node = Some cs" "f st node = Inr (st', out)"
  have "\<forall>c\<in>set cs. height c \<le> hlist cs" by (simp add: hlist_le [symmetric])
  from assms [OF a this] show "hlist out \<le> hlist cs" by (simp add: hlist_le)
qed

lemma bounded_transformCustomFootnotes: "bounded_pass (pure_pass transformCustomFootnotes)"
proof (rule bounded_passI)
  fix st node cs st' out h
  assume a: "nchildren node = Some cs" "pure_pass transformCustomFootnotes st node = Inr (st', out)"
    "\<forall>c\<in>set cs. height c \<le> h"
  then obtain mid where "splice cs = Inr mid" "out = merge_text mid"
    by (auto simp: pure_pass_def transformCustomFootnotes_def split: sum.splits)
  with a(3) show "\<forall>c\<in>set out. height c \<le> h"
    using splice_height merge_text_height by blast
qed

lemma bounded_rx_pass: "bounded_pass (rx_pass r t)"
proof (rule bounded_passI)
  fix st node cs st' out h
  assume a: "nchildren node = Some cs" "rx_pass r t st node = Inr (st', out)"
    "\<forall>c\<in>set cs. height c \<le> h"
  then have "regex_children (js_replace r t) cs = Inr out"
    by (auto simp: rx_pass_def pure_pass_def regex_def regex_with_def split: sum.splits)
  with a(3) show "\<forall>c\<in>set out. height c \<le> h"
    using regex_children_height by blast
qed

lemma bounded_footnoteRegex: "bounded_pass footnoteRegex"
proof (rule bounded_passI)
  fix st node cs st' out h
  assume a: "nchildren node = Some cs" "footnoteRegex st node = Inr (st', out)"
    "\<forall>c\<in>set cs. height c \<le> h"
  then have "footnote_children st cs = (st', out)"
    by (auto simp: footnoteRegex_def)
  with a(3) show "\<forall>c\<in>set out. height c \<le> h"
    using footnote_children_height by blast
qed

lemma bounded_imgRegex: "bounded_pass imgRegex"
proof (rule bounded_passI)
  fix st node cs st' out h
  assume a: "nchildren node = Some cs" "imgRegex st node = Inr (st', out)"
    "\<forall>c\<in>set cs. height c \<le> h"
  then have "img_children st cs = Inr (st', out)"
    by (auto simp: imgRegex_def)
  with a(3) show "\<forall>c\<in>set out. height c \<le> h"
    using img_children_height by blast
qed

lemma bounded_tblRegex: "bounded_pass tblRegex"
proof (rule bounded_passI)
  fix st node cs st' out h
  assume a: "nchildren node = Some cs" "tblRegex st node = Inr (st', out)"
    "\<forall>c\<in>set cs. height c \<le> h"
  then have "tbl_children st False True [] cs = Inr (st', out)"
    by (auto simp: tblRegex_def)
  with a(3) show "\<forall>c\<in>set out. height c \<le> h"
    using tbl_children_height by blast
qed

lemma bounded_passes: "\<forall>f\<in>set passes. bounded_pass f"
  by (simp add: passes_def bounded_transformCustomFootnotes bounded_rx_pass
        bounded_footnoteRegex bounded_imgRegex bounded_tblRegex)

lemma run_passes_height:
  "\<forall>f\<in>set fs. bounded_pass f \<Longrightarrow> nchildren node = Some cs
     \<Longrightarrow> run_passes fs st node = Inr (st', node') \<Longrightarrow> height node' \<le> height node"
proof (induction fs arbitrary: st node cs)
  case Nil
  then show ?case by simp
next
  case (Cons f fs)
  from Cons.prems(3) obtain st1 out where
    f: "f st node = Inr (st1, out)" and r: "run_passes fs st1 (set_children node out) = Inr (st', node')"
    by (auto split: sum.splits)
  from Cons.prems(1,2) f have "hlist out \<le> hlist cs"
    by (auto simp: bounded_pass_def)
  moreover have "height node' \<le> height (set_children node out)"
    using Cons.IH [OF _ _ r] Cons.prems(1) by (simp add: set_children_def)
  ultimately show ?case
    using Cons.prems(2) by (simp add: height_Some)
qed

lemma decode_child_height [simp]: "height (decode_child c) = height c"
  by (simp add: decode_child_def)

lemma visitor_height: "visitor st node = Inr (st', node') \<Longrightarrow> height node' \<le> height node"
proof (cases "nchildren node")
  case None
  assume "visitor st node = Inr (st', node')"
  with None show ?thesis by (simp add: visitor_def)
next
  case (Some cs)
  assume "visitor st node = Inr (st', node')"
  with Some have r: "run_passes passes st (set_children node (map decode_child cs)) = Inr (st', node')"
    by (simp add: visitor_def)
  have "height node' \<le> height (set_children node (map decode_child cs))"
    by (rule run_passes_height [OF bounded_passes _ r]) (simp add: set_children_def)
  also have "\<dots> = height node"
    using Some by (simp add: height_Some hlist_def comp_def)
  finally show ?thesis .
qed


function visit_node :: "state \<Rightarrow> node \<Rightarrow> exn + state \<times> node"
  and visit_list :: "state \<Rightarrow> node list \<Rightarrow> exn + state \<times> node list" where
  "visit_node st node =
     (case (if is_visited (ntype node) then visitor st node else Inr (st, node)) of
        Inl e \<Rightarrow> Inl e
      | Inr (st1, node1) \<Rightarrow>
          (case nchildren node1 of
             None \<Rightarrow> Inr (st1, node1)
           | Some cs \<Rightarrow>
               (case visit_list st1 cs of
                  Inl e \<Rightarrow> Inl e
                | Inr (st2, cs') \<Rightarrow> Inr (st2, set_children node1 cs'))))"
| "visit_list st [] = Inr (st, [])"
| "visit_list st (child # rest) =
     (case visit_node st child of
        Inl e \<Rightarrow> Inl e
      | Inr (st1, child') \<Rightarrow>
          (case visit_list st1 rest of
             Inl e \<Rightarrow> Inl e
           | Inr (st2, rest') \<Rightarrow> Inr (st2, child' # rest')))"
  by pat_completeness auto
termination
proof (relation "measures
    [\<lambda>x. case x of Inl (st, node) \<Rightarrow> Suc (height node) | Inr (st, cs) \<Rightarrow> Suc (hlist cs),
     \<lambda>x. case x of Inl (st, node) \<Rightarrow> 0 | Inr (st, cs) \<Rightarrow> Suc (length cs)]", goal_cases)
  case 1
  show ?case by simp
next
  case (2 st node x st1 node1 cs)
  then have "height node1 \<le> height node"
    by (auto split: if_splits dest: visitor_height)
  with 2 show ?case by (simp add: height_Some)
next
  case (3 st child rest)
  have "height child \<le> hlist (child # rest)"
    using hlist_le [of "child # rest" "hlist (child # rest)"] by simp
  then show ?case by auto
next
  case (4 st child rest x st1 child')
  have "hlist rest \<le> hlist (child # rest)"
    using hlist_le [of "child # rest" "hlist (child # rest)"] by (simp add: hlist_le)
  then show ?case by auto
qed

declare visit_node.simps [simp del]

section \<open>The transformer: markdownReplace\<close>

text \<open>\<^verbatim>\<open>node.type === 'paragraph' && node.children && node.children.length > 0\<close>\<close>

definition has_content :: "node \<Rightarrow> bool" where
  "has_content node =
     (ntype node = Paragraph \<and> (case nchildren node of Some (c # cs) \<Rightarrow> True | _ \<Rightarrow> False))"

text \<open>The search \<^verbatim>\<open>for (let i = tree.children.length - 1; i >= 0; i--)\<close>, entered with
  \<open>n\<close> the number of children still to look at: the index found, if any.\<close>

fun lastParagraph :: "node list \<Rightarrow> nat \<Rightarrow> nat option" where
  "lastParagraph children 0 = None"
| "lastParagraph children (Suc i) =
     (if has_content (children ! i) then Some i else lastParagraph children i)"

text \<open>The assignment \<^verbatim>\<open>lastNodeInParagraph.value += '\<close>pilcrow\<^verbatim>\<open>'\<close> on the last child of the
  paragraph, guarded by its type and \<^verbatim>\<open>typeof value === 'string'\<close>.\<close>

definition add_mark :: "node \<Rightarrow> node" where
  "add_mark paragraph =
     (case nchildren paragraph of
        None \<Rightarrow> paragraph
      | Some cs \<Rightarrow>
          if cs = [] then paragraph
          else
            let lastNodeInParagraph = last cs in
            (case nvalue lastNodeInParagraph of
               Str v \<Rightarrow>
                 if ntype lastNodeInParagraph = Text \<or> ntype lastNodeInParagraph = Html
                 then set_children paragraph
                        (butlast cs @ [set_value lastNodeInParagraph (Str (v @ [cPilcrow]))])
                 else paragraph
             | _ \<Rightarrow> paragraph))"

definition trailing_mark :: "node list \<Rightarrow> node list" where
  "trailing_mark children =
     (case lastParagraph children (length children) of
        None \<Rightarrow> children
      | Some i \<Rightarrow> children[i := add_mark (children ! i)])"

definition divider :: node where
  "divider = html_node (asc ''<hr style='margin: 1.5em 0 1.5em 0;' class='footnote-separator'>'')"

definition footnote_block :: "footnote \<Rightarrow> node" where
  "footnote_block footnote =
     html_node (asc ''<table class=\"comment\"><tr class=\"comment\"><td class=\"comment\"><a href=\"#comment_forward_link_''
       @ show_nat (num footnote) @ asc ''\" id=\"comment_backward_link_'' @ show_nat (num footnote)
       @ asc ''\">['' @ show_nat (num footnote) @ asc '']</a></td><td class=\"comment\">''
       @ to_string (content footnote) @ asc ''</td></tr></table>'')"

text \<open>The nodes pushed to \<^verbatim>\<open>tree.children\<close> after the walk.\<close>

definition footnote_section :: "footnote list \<Rightarrow> node list" where
  "footnote_section fs = (if fs \<noteq> [] then divider # map footnote_block fs else [])"

definition init_state :: state where
  "init_state = \<lparr>imgNum = 0, tblNum = 0, footNoteNum = 0, collectedFootnotes = []\<rparr>"

text \<open>
  The transformer that \<^verbatim>\<open>markdownReplace()\<close> returns, applied to \<open>tree\<close>: the counters
  and the footnote list are reset, the tree is walked, the mark is appended and the
  footnote section is pushed. The result is the tree after the call together with the
  counters and the footnote list it leaves; \<^verbatim>\<open>tree.children.length\<close> raises a TypeError
  when the tree has no children.
\<close>

definition markdownReplace :: "node \<Rightarrow> exn + state \<times> node" where
  "markdownReplace tree =
     (case visit_node init_state tree of
        Inl e \<Rightarrow> Inl e
      | Inr (st, tree1) \<Rightarrow>
          (case nchildren tree1 of
             None \<Rightarrow> Inl TypeError
           | Some cs \<Rightarrow>
               Inr (st, set_children tree1
                          (trailing_mark cs @ footnote_section (collectedFootnotes st)))))"

section \<open>Notation for example trees\<close>

text \<open>A container node that has only a type and children.\<close>

definition elem :: "ntype \<Rightarrow> node list \<Rightarrow> node" where
  "elem k cs = Node k Undefined Undefined Undefined (Some cs)"

section \<open>Notions used in the statements\<close>

definition is_image :: "node \<Rightarrow> bool" where
  "is_image c = (ntype c = Image)"


text \<open>An image node with a url and alt text.\<close>

definition image :: "string \<Rightarrow> string \<Rightarrow> node" where
  "image u a = Node Image Undefined (Str (asc u)) (Str (asc a)) None"

section \<open>Notions used in the statements about footnotes\<close>

text \<open>A match ends at a suffix of the input, and the position counts the consumed units.\<close>

definition advances :: "mstate \<Rightarrow> mstate \<Rightarrow> bool" where
  "advances st st' =
     (fst st' = fst st + (length (fst (snd st)) - length (fst (snd st')))
      \<and> length (fst (snd st')) \<le> length (fst (snd st)))"

text \<open>The captures of the matches of a scan, left to right.\<close>

fun matches :: "tok list \<Rightarrow> caps list" where
  "matches [] = []"
| "matches (Ch x # ts) = matches ts"
| "matches (Mt cs # ts) = cs # matches ts"

text \<open>The contents of the footnote markers of a string, in the order of the string: the second
  capture of every match of the footnote pattern.\<close>

definition marker_contents :: "ustring \<Rightarrow> jsval list" where
  "marker_contents s = map (\<lambda>cs. cap cs 2) (matches (scan footnoteCaptureRegex 0 s))"

text \<open>The contents of the markers of a sibling list, in the order of the list: those of its text
  and html nodes.\<close>

definition markers :: "node list \<Rightarrow> jsval list" where
  "markers cs = concat (map (\<lambda>c. if ntype c = Text \<or> ntype c = Html
                                   then marker_contents (or_empty (nvalue c)) else []) cs)"

text \<open>The entries for a list of contents, numbered from \<open>n + 1\<close> on.\<close>

fun numbered :: "nat \<Rightarrow> jsval list \<Rightarrow> footnote list" where
  "numbered n [] = []"
| "numbered n (c # cs) = \<lparr>num = Suc n, content = c\<rparr> # numbered (Suc n) cs"

text \<open>The nodes that replace a text or html node with markers: the text between the matches
  (when it is not empty) and, for each match, a link with the next number.\<close>

fun pushed_nodes :: "nat \<Rightarrow> ustring \<Rightarrow> tok list \<Rightarrow> node list" where
  "pushed_nodes n acc [] = (if acc \<noteq> [] then [text_node (rev acc)] else [])"
| "pushed_nodes n acc (Ch x # ts) = pushed_nodes n (x # acc) ts"
| "pushed_nodes n acc (Mt cs # ts) =
     (if acc \<noteq> [] then [text_node (rev acc)] else [])
     @ html_node (reference (Suc n)) # pushed_nodes (Suc n) [] ts"

text \<open>The footnote invariant of a traversal: the i-th collected entry carries number i, and
  the counter is the number of entries.\<close>

definition fn_inv :: "state \<Rightarrow> bool" where
  "fn_inv st =
     (map num (collectedFootnotes st) = [1..<Suc (length (collectedFootnotes st))]
      \<and> footNoteNum st = length (collectedFootnotes st))"

text \<open>A step of the traversal: it only appends to the footnote list and keeps the invariant.\<close>

definition fn_step :: "state \<Rightarrow> state \<Rightarrow> bool" where
  "fn_step st st' =
     ((\<exists>more. collectedFootnotes st' = collectedFootnotes st @ more)
      \<and> (fn_inv st \<longrightarrow> fn_inv st'))"

definition fn_pass :: "pass \<Rightarrow> bool" where
  "fn_pass f = (\<forall>st node st' out. f st node = Inr (st', out) \<longrightarrow> fn_step st st')"

text \<open>The anchor ids of footnote \<open>n\<close>.\<close>

definition fwd_id :: "nat \<Rightarrow> ustring" where
  "fwd_id n = asc ''comment_forward_link_'' @ show_nat n"

definition bwd_id :: "nat \<Rightarrow> ustring" where
  "bwd_id n = asc ''comment_backward_link_'' @ show_nat n"

text \<open>The example of the specification: a paragraph with the markers \<^verbatim>\<open>[^a]\<close> and \<^verbatim>\<open>[^b]\<close>, and
  the state after its traversal.\<close>

definition two_markers :: node where
  "two_markers = elem Root [elem Paragraph [text_node (asc ''x[^a]y[^b]'')]]"

definition st_ab :: state where
  "st_ab = \<lparr>imgNum = 0, tblNum = 0, footNoteNum = 2,
            collectedFootnotes = [\<lparr>num = 1, content = Str (asc ''a'')\<rparr>,
                                  \<lparr>num = 2, content = Str (asc ''b'')\<rparr>]\<rparr>"

section \<open>Notions used in the statements about the splicer\<close>


text \<open>The text node that replaces a match.\<close>

definition spliced :: "ustring \<Rightarrow> node \<Rightarrow> node" where
  "spliced before l = text_node (before @ asc ''[^'' @ or_empty (nvalue l) @ asc '']'')"

text \<open>A text node that carries a string.\<close>

definition is_text :: "node \<Rightarrow> bool" where
  "is_text n = (ntype n = Text \<and> (\<exists>v. nvalue n = Str v))"





section \<open>Notions used in the statements about the rewriter and the tables\<close>



section \<open>A filter for the scan\<close>

text \<open>A filter for the scan: \<open>nullable r p\<close> holds when \<open>r\<close> may match without consuming a
  code unit at position \<open>p\<close>, and \<open>first_unit r p x\<close> when a match of \<open>r\<close> at \<open>p\<close> may consume
  \<open>x\<close> first. Both are upper bounds: where neither holds, there is no match.\<close>

fun nullable :: "rx \<Rightarrow> nat \<Rightarrow> bool" where
  "nullable (RChar c) p = False"
| "nullable (RClass rs) p = False"
| "nullable (RNotClass rs) p = False"
| "nullable RDot p = False"
| "nullable (RSeq a b) p = (nullable a p \<and> nullable b p)"
| "nullable (RAlt a b) p = (nullable a p \<or> nullable b p)"
| "nullable (RLazy r) p = True"
| "nullable (RStar r) p = True"
| "nullable (RGroup k r) p = nullable r p"
| "nullable (RNotAhead r) p = True"
| "nullable RBol p = (p = 0)"
| "nullable REps p = True"

fun first_unit :: "rx \<Rightarrow> nat \<Rightarrow> nat \<Rightarrow> bool" where
  "first_unit (RChar c) p x = (x = c)"
| "first_unit (RClass rs) p x = in_ranges rs x"
| "first_unit (RNotClass rs) p x = (\<not> in_ranges rs x)"
| "first_unit RDot p x = (\<not> line_terminator x)"
| "first_unit (RSeq a b) p x = (first_unit a p x \<or> (nullable a p \<and> first_unit b p x))"
| "first_unit (RAlt a b) p x = (first_unit a p x \<or> first_unit b p x)"
| "first_unit (RLazy r) p x = first_unit r p x"
| "first_unit (RStar r) p x = first_unit r p x"
| "first_unit (RGroup k r) p x = first_unit r p x"
| "first_unit (RNotAhead r) p x = False"
| "first_unit RBol p x = False"
| "first_unit REps p x = False"

definition can_start :: "rx \<Rightarrow> nat \<Rightarrow> nat \<Rightarrow> bool" where
  "can_start r p x = (nullable r p \<or> first_unit r p x)"

fun no_start :: "rx \<Rightarrow> nat \<Rightarrow> ustring \<Rightarrow> bool" where
  "no_start r p [] = True"
| "no_start r p (x # xs) = (\<not> can_start r p x \<and> no_start r (Suc p) xs)"

section \<open>Notions used in the statements about the walk\<close>

text \<open>No node of a type the visitor is called on has an image among its children.\<close>

fun img_free :: "node \<Rightarrow> bool" where
  "img_free (Node k v u a None) = True"
| "img_free (Node k v u a (Some cs)) =
     ((is_visited k \<longrightarrow> (\<forall>c\<in>set cs. ntype c \<noteq> Image)) \<and> (\<forall>c\<in>set cs. img_free c))"


text \<open>A subtree without a node the visitor is called on.\<close>

fun no_visited :: "node \<Rightarrow> bool" where
  "no_visited (Node k v u a None) = (\<not> is_visited k)"
| "no_visited (Node k v u a (Some cs)) = (\<not> is_visited k \<and> (\<forall>c\<in>set cs. no_visited c))"





section \<open>Example documents\<close>







section \<open>Ordinal formatter: properties\<close>

lemma digits_basic:
  assumes "1 \<le> d" "d \<le> 9"
  shows "digits ! nat d = [basic_numeral d]"
proof -
  from assms have "d \<in> {1, 2, 3, 4, 5, 6, 7, 8, 9}" by auto
  then show ?thesis
    by (auto simp: digits_def basic_numeral_def)
qed

lemma basic_numeral_cjk: "1 \<le> d \<Longrightarrow> basic_numeral d \<in> cjk_numerals"
  by (simp add: basic_numeral_def cjk_numerals_def)

lemma numberToChinese_in_range:
  assumes "1 \<le> n" "n \<le> 99"
  shows "numberToChinese (Num (of_int n)) = Inr (ordinal_spec n)"
proof (cases "n < 10")
  case True
  with assms show ?thesis
    by (simp add: ordinal_spec_def digits_basic)
next
  case False
  with assms have t: "1 \<le> n div 10" "n div 10 \<le> 9" by auto
  have o: "0 \<le> n mod 10" "n mod 10 \<le> 9" by auto
  show ?thesis
  proof (cases "n mod 10 = 0")
    case True
    with assms False t show ?thesis
      by (simp add: ordinal_spec_def digits_basic Let_def)
  next
    case nz: False
    with o have "1 \<le> n mod 10" by linarith
    with assms False t o nz show ?thesis
      by (simp add: ordinal_spec_def digits_basic Let_def)
  qed
qed

lemma ordinal_spec_cjk:
  assumes "1 \<le> n" "n \<le> 99"
  shows "set (ordinal_spec n) \<subseteq> cjk_numerals"
proof -
  have ten: "cTen \<in> cjk_numerals" by (simp add: cTen_def cjk_numerals_def)
  have o: "n mod 10 \<noteq> 0 \<Longrightarrow> 1 \<le> n mod 10"
    using pos_mod_sign [of 10 n] by linarith
  have t: "\<not> n < 10 \<Longrightarrow> 1 \<le> n div 10" using assms by auto
  show ?thesis
    using assms ten o t by (auto simp: ordinal_spec_def basic_numeral_cjk)
qed

lemma numberToChinese_out_of_range:
  "n < 1 \<or> 99 < n \<Longrightarrow> numberToChinese (Num (of_int n)) = Inl Error"
  by auto

lemma numberToChinese_non_integer:
  "r \<notin> \<int> \<Longrightarrow> numberToChinese (Num r) = Inl Error"
proof -
  assume "r \<notin> \<int>"
  then have "of_int \<lfloor>r\<rfloor> \<noteq> r" by (metis Ints_of_int)
  then show ?thesis by simp
qed

text \<open>
  Claim C2. For every integer \<open>n\<close> with \<open>1 \<le> n \<le> 99\<close> the ordinal formatter returns the
  numeral the specification describes (the basic numeral below ten; above, a bare ten for
  tens digit 1 and digit-then-ten otherwise, the ones digit appended unless it is zero),
  which is nonempty and made of the numerals for one to nine and ten only; 1, 10, 20 and
  99 give the four strings of the specification. An integer outside \<open>[1, 99]\<close> (0 and 100
  among them), a number that is not an integer, \<open>NaN\<close> and the infinities make it throw.
  The function is pure: it has no state to change.
\<close>

theorem numberToChinese_contract:
  "(1 \<le> n \<and> n \<le> 99 \<longrightarrow>
      numberToChinese (Num (of_int n)) = Inr (ordinal_spec n)
      \<and> ordinal_spec n \<noteq> [] \<and> set (ordinal_spec n) \<subseteq> cjk_numerals)
   \<and> (n < 1 \<or> 99 < n \<longrightarrow> numberToChinese (Num (of_int n)) = Inl Error)
   \<and> (r \<notin> \<int> \<longrightarrow> numberToChinese (Num r) = Inl Error)
   \<and> numberToChinese NaN = Inl Error
   \<and> numberToChinese PosInf = Inl Error
   \<and> numberToChinese NegInf = Inl Error
   \<and> numberToChinese (Num 1) = Inr [0x4E00]
   \<and> numberToChinese (Num 10) = Inr [0x5341]
   \<and> numberToChinese (Num 20) = Inr [0x4E8C, 0x5341]
   \<and> numberToChinese (Num 99) = Inr [0x4E5D, 0x5341, 0x4E5D]
   \<and> numberToChinese (Num 0) = Inl Error
   \<and> numberToChinese (Num 100) = Inl Error"
proof -
  have a: "1 \<le> n \<and> n \<le> 99 \<longrightarrow>
      numberToChinese (Num (of_int n)) = Inr (ordinal_spec n)
      \<and> ordinal_spec n \<noteq> [] \<and> set (ordinal_spec n) \<subseteq> cjk_numerals"
    using numberToChinese_in_range [of n] ordinal_spec_cjk [of n]
    by (auto simp: ordinal_spec_def)
  have b: "n < 1 \<or> 99 < n \<longrightarrow> numberToChinese (Num (of_int n)) = Inl Error"
    using numberToChinese_out_of_range [of n] by blast
  have c: "r \<notin> \<int> \<longrightarrow> numberToChinese (Num r) = Inl Error"
    using numberToChinese_non_integer [of r] by blast
  have d: "numberToChinese (Num 1) = Inr [0x4E00]"
    "numberToChinese (Num 10) = Inr [0x5341]"
    "numberToChinese (Num 20) = Inr [0x4E8C, 0x5341]"
    "numberToChinese (Num 99) = Inr [0x4E5D, 0x5341, 0x4E5D]"
    by (simp_all add: digits_def cTen_def)
  have e: "numberToChinese (Num 0) = Inl Error" "numberToChinese (Num 100) = Inl Error"
    by simp_all
  from a b c d e show ?thesis by simp
qed

theorem numberToChinese_contract_witness:
  "numberToChinese (Num 42) = Inr [0x56DB, 0x5341, 0x4E8C]
   \<and> numberToChinese (Num (- 3)) = Inl Error
   \<and> numberToChinese (Num (5 / 2)) = Inl Error"
proof -
  have h1: "(1::int) \<le> 42 \<and> (42::int) \<le> 99" by simp
  have h2: "(- 3::int) < 1 \<or> 99 < (- 3::int)" by simp
  have h3: "(5 / 2 :: rat) \<notin> \<int>"
  proof
    assume "(5 / 2 :: rat) \<in> \<int>"
    then obtain k :: int where "(5 / 2 :: rat) = of_int k" by (auto elim: Ints_cases)
    then have "(5::rat) = of_int (2 * k)" by simp
    then have "(5::int) = 2 * k" by (metis of_int_eq_iff of_int_numeral)
    then show False by presburger
  qed
  have s: "ordinal_spec 42 = [0x56DB, 0x5341, 0x4E8C]"
    by (simp add: ordinal_spec_def basic_numeral_def cTen_def)
  have w1: "numberToChinese (Num (of_int 42)) = Inr (ordinal_spec 42)"
    using numberToChinese_contract [of 42 "5 / 2"] h1 by blast
  have w2: "numberToChinese (Num (5 / 2)) = Inl Error"
    using numberToChinese_contract [of 42 "5 / 2"] h3 by blast
  have w3: "numberToChinese (Num (of_int (- 3))) = Inl Error"
    using numberToChinese_contract [of "- 3" 0] h2 by blast
  have "numberToChinese (Num 42) = Inr [0x56DB, 0x5341, 0x4E8C]"
    using w1 by (simp only: s of_int_numeral)
  moreover have "numberToChinese (Num (- 3)) = Inl Error"
    using w3 by (simp only: of_int_numeral of_int_minus)
  moreover note w2
  ultimately show ?thesis by simp
qed

section \<open>Pattern rewriter: properties\<close>

lemma regex_children_length:
  "regex_children rep cs = Inr out \<Longrightarrow> length out = length cs"
  by (induction cs arbitrary: out) (auto split: sum.splits)

lemma regex_children_nth:
  "regex_children rep cs = Inr out \<Longrightarrow> i < length cs \<Longrightarrow> regex_child rep (cs ! i) = Inr (out ! i)"
proof (induction cs arbitrary: out i)
  case Nil
  then show ?case by simp
next
  case (Cons c cs)
  then show ?case by (cases i) (auto split: sum.splits)
qed

text \<open>What the rewriter does with each kind of node, for every replacement function.\<close>

lemma regex_children_cases:
  assumes "regex_children rep cs = Inr out" and "i < length cs"
  shows "length out = length cs"
    and "ntype (cs ! i) \<notin> {Text, Html, Blockquote} \<Longrightarrow> out ! i = cs ! i"
    and "ntype (cs ! i) \<in> {Text, Html, Blockquote} \<Longrightarrow> \<exists>v. nvalue (cs ! i) = Str v"
    and "ntype (cs ! i) \<in> {Text, Html, Blockquote} \<Longrightarrow> nvalue (cs ! i) = Str v \<Longrightarrow> rep v \<noteq> v
           \<Longrightarrow> out ! i = html_node (rep v)"
    and "ntype (cs ! i) = Text \<Longrightarrow> nvalue (cs ! i) = Str v \<Longrightarrow> rep v = v
           \<Longrightarrow> out ! i = text_node v"
    and "ntype (cs ! i) = Html \<Longrightarrow> nvalue (cs ! i) = Str v \<Longrightarrow> rep v = v
           \<Longrightarrow> out ! i = cs ! i"
    and "ntype (cs ! i) = Blockquote \<Longrightarrow> nvalue (cs ! i) = Str v \<Longrightarrow> rep v = v
           \<Longrightarrow> out ! i = text_node v"
proof -
  note c = regex_children_nth [OF assms]
  show "length out = length cs" by (rule regex_children_length [OF assms(1)])
  show "ntype (cs ! i) \<notin> {Text, Html, Blockquote} \<Longrightarrow> out ! i = cs ! i"
    using c by (simp add: regex_child_def)
  show "ntype (cs ! i) \<in> {Text, Html, Blockquote} \<Longrightarrow> \<exists>v. nvalue (cs ! i) = Str v"
    using c by (cases "nvalue (cs ! i)") (auto simp: regex_child_def)
  show "ntype (cs ! i) \<in> {Text, Html, Blockquote} \<Longrightarrow> nvalue (cs ! i) = Str v \<Longrightarrow> rep v \<noteq> v
           \<Longrightarrow> out ! i = html_node (rep v)"
    using c by (auto simp: regex_child_def)
  show "ntype (cs ! i) = Text \<Longrightarrow> nvalue (cs ! i) = Str v \<Longrightarrow> rep v = v
           \<Longrightarrow> out ! i = text_node v"
    using c by (auto simp: regex_child_def)
  show "ntype (cs ! i) = Html \<Longrightarrow> nvalue (cs ! i) = Str v \<Longrightarrow> rep v = v
           \<Longrightarrow> out ! i = cs ! i"
    using c by (auto simp: regex_child_def)
  show "ntype (cs ! i) = Blockquote \<Longrightarrow> nvalue (cs ! i) = Str v \<Longrightarrow> rep v = v
           \<Longrightarrow> out ! i = text_node v"
    using c by (auto simp: regex_child_def)
qed


section \<open>Table numbering: properties\<close>


section \<open>Figure numbering: properties\<close>

text \<open>
  Claim C8. For a table the title falls back to the empty string (\<^verbatim>\<open>value || ""\<close>, and
  the initial \<^verbatim>\<open>""\<close> when the first cell has no child). For an image the \<^verbatim>\<open>alt\<close> attribute
  falls back to the empty string too, but the caption prints \<^verbatim>\<open>${child.alt}\<close> itself: an
  image without alt text gets the caption text \<^verbatim>\<open>undefined\<close> (\<^verbatim>\<open>null\<close> when alt is null),
  not the empty string the claim states.
\<close>

theorem imgRegex_missing_alt_caption:
  "imgRegex init_state (elem Paragraph [Node Image Undefined (Str (asc ''a.png'')) Undefined None])
   = Inr (init_state\<lparr>imgNum := 1\<rparr>,
        [html_node (figureHtml (asc ''float-right'') (asc ''a.png'') [] [0x4E00] Undefined)])
   \<and> figureHtml (asc ''float-right'') (asc ''a.png'') [] [0x4E00] Undefined
     = asc ''\<newline><figure class=\"image-wrap float-right\">\<newline>  <img src=\"a.png\" alt=\"\">\<newline>  <figcaption>\<newline>    <a href=\"#img_forward_link_''
       @ [cFig, 0x4E00] @ asc ''\" id=\"img_backward_link_'' @ [cFig, 0x4E00] @ asc ''\">'' @ [cFig, 0x4E00]
       @ asc ''</a>'' @ [cColon] @ asc ''undefined\<newline>  </figcaption>\<newline></figure>''"
  by (simp add: imgRegex_def elem_def init_state_def digits_def floatClass_def altText_def
        rewrite_url_def starts_with_def asc_def figureHtml_def)

section \<open>Trailing mark: properties\<close>

lemma lastParagraph_append:
  "n \<le> length xs \<Longrightarrow> lastParagraph (xs @ ys) n = lastParagraph xs n"
  by (induction n) (simp_all add: nth_append)

lemma lastParagraph_none:
  "n \<le> length cs \<Longrightarrow> \<forall>c\<in>set cs. \<not> has_content c \<Longrightarrow> lastParagraph cs n = None"
  by (induction n) simp_all

lemma lastParagraph_found:
  "has_content p \<Longrightarrow> \<forall>c\<in>set post. \<not> has_content c
     \<Longrightarrow> lastParagraph (pre @ p # post) (length (pre @ p # post)) = Some (length pre)"
proof (induction post rule: rev_induct)
  case Nil
  then show ?case by simp
next
  case (snoc x post)
  have "lastParagraph (pre @ p # post @ [x]) (length (pre @ p # post))
        = lastParagraph (pre @ p # post) (length (pre @ p # post))"
    using lastParagraph_append [of "length (pre @ p # post)" "pre @ p # post" "[x]"] by simp
  moreover have "(pre @ p # post @ [x]) ! (length pre + Suc (length post)) = x"
    using nth_append_length [of "pre @ p # post" x "[]"] by simp
  ultimately show ?case using snoc by simp
qed

lemma add_mark_last:
  assumes "nchildren p = Some (ks @ [l])"
  shows "add_mark p =
     (if (ntype l = Text \<or> ntype l = Html) \<and> (\<exists>v. nvalue l = Str v)
      then set_children p (ks @ [set_value l (Str (to_string (nvalue l) @ [cPilcrow]))])
      else p)"
  using assms by (cases "nvalue l") (simp_all add: add_mark_def)

text \<open>
  Claim C10. The trailing-mark step reads the children of the root only. When no top-level
  node is a paragraph with children it changes nothing. Otherwise, with \<open>p\<close> the last
  such paragraph and \<open>l\<close> its last child, the only change is in \<open>l\<close>: the pilcrow is
  appended to its value when \<open>l\<close> is a text or html node with a string value, and nothing
  is changed when it is not. The nodes before and after \<open>p\<close>, the other children of
  \<open>p\<close> and everything nested in them stay as they are.
\<close>

theorem trailing_mark_frame:
  "((\<forall>c\<in>set cs. \<not> has_content c) \<longrightarrow> trailing_mark cs = cs)
   \<and> (has_content p \<and> (\<forall>c\<in>set post. \<not> has_content c) \<and> nchildren p = Some (ks @ [l]) \<longrightarrow>
        trailing_mark (pre @ p # post) =
          pre @ (if (ntype l = Text \<or> ntype l = Html) \<and> (\<exists>v. nvalue l = Str v)
                 then set_children p (ks @ [set_value l (Str (to_string (nvalue l) @ [cPilcrow]))])
                 else p) # post)"
proof (intro conjI impI)
  assume "\<forall>c\<in>set cs. \<not> has_content c"
  then show "trailing_mark cs = cs"
    by (simp add: trailing_mark_def lastParagraph_none)
next
  assume a: "has_content p \<and> (\<forall>c\<in>set post. \<not> has_content c) \<and> nchildren p = Some (ks @ [l])"
  then have "lastParagraph (pre @ p # post) (length (pre @ p # post)) = Some (length pre)"
    by (intro lastParagraph_found) simp_all
  then show "trailing_mark (pre @ p # post) =
          pre @ (if (ntype l = Text \<or> ntype l = Html) \<and> (\<exists>v. nvalue l = Str v)
                 then set_children p (ks @ [set_value l (Str (to_string (nvalue l) @ [cPilcrow]))])
                 else p) # post"
    using a add_mark_last [of p ks l] by (simp add: trailing_mark_def)
qed

theorem trailing_mark_frame_witness:
  "trailing_mark [elem Blockquote [elem Paragraph [text_node (asc ''nested'')]]]
     = [elem Blockquote [elem Paragraph [text_node (asc ''nested'')]]]
   \<and> trailing_mark [elem Paragraph [text_node (asc ''a''), text_node (asc ''b'')],
                    elem Paragraph [],
                    elem Blockquote [elem Paragraph [text_node (asc ''c'')]]]
     = [elem Paragraph [text_node (asc ''a''), text_node (asc ''b'' @ [cPilcrow])],
        elem Paragraph [],
        elem Blockquote [elem Paragraph [text_node (asc ''c'')]]]
   \<and> trailing_mark [elem Paragraph [text_node (asc ''a''), elem (Other ''emphasis'') [text_node (asc ''b'')]]]
     = [elem Paragraph [text_node (asc ''a''), elem (Other ''emphasis'') [text_node (asc ''b'')]]]"
proof -
  let ?q = "elem Blockquote [elem Paragraph [text_node (asc ''nested'')]]"
  let ?p = "elem Paragraph [text_node (asc ''a''), text_node (asc ''b'')]"
  let ?post = "[elem Paragraph [], elem Blockquote [elem Paragraph [text_node (asc ''c'')]]]"
  let ?e = "elem (Other ''emphasis'') [text_node (asc ''b'')]"
  let ?p2 = "elem Paragraph [text_node (asc ''a''), ?e]"
  have 1: "\<forall>c\<in>set [?q]. \<not> has_content c"
    by (simp add: has_content_def elem_def)
  have 2: "has_content ?p \<and> (\<forall>c\<in>set ?post. \<not> has_content c)
           \<and> nchildren ?p = Some ([text_node (asc ''a'')] @ [text_node (asc ''b'')])"
    by (simp add: has_content_def elem_def)
  have 3: "has_content ?p2 \<and> (\<forall>c\<in>set []. \<not> has_content c)
           \<and> nchildren ?p2 = Some ([text_node (asc ''a'')] @ [?e])"
    by (simp add: has_content_def elem_def)
  have "trailing_mark [?q] = [?q]"
    using trailing_mark_frame [of "[?q]"] 1 by blast
  moreover have "trailing_mark ([] @ ?p # ?post) =
      [] @ set_children ?p ([text_node (asc ''a'')] @ [set_value (text_node (asc ''b'')) (Str (asc ''b'' @ [cPilcrow]))]) # ?post"
    using trailing_mark_frame [of "[]" ?p ?post "[text_node (asc ''a'')]" "text_node (asc ''b'')" "[]"] 2
    by (simp add: text_node_def)
  moreover have "trailing_mark ([] @ ?p2 # []) = [] @ ?p2 # []"
    using trailing_mark_frame [of "[]" ?p2 "[]" "[text_node (asc ''a'')]" ?e "[]"] 3
    by (simp add: elem_def)
  ultimately show ?thesis
    by (simp add: set_children_def set_value_def text_node_def elem_def)
qed

section \<open>Figure numbering: the ordinals\<close>

declare numberToChinese.simps [simp del]







lemma img_children_state:
  "img_children st cs = Inr (st', out) \<Longrightarrow>
     st' = st\<lparr>imgNum := imgNum st + length (filter is_image cs)\<rparr> \<and> length out = length cs"
proof (induction cs arbitrary: st out)
  case Nil
  then show ?case by simp
next
  case (Cons a cs)
  show ?case
  proof (cases "ntype a = Image")
    case False
    with Cons.prems obtain out' where
      o: "img_children st cs = Inr (st', out')" "out = a # out'"
      by (auto split: sum.splits)
    from Cons.IH [OF o(1)] o(2) False show ?thesis by (simp add: is_image_def)
  next
    case True
    with Cons.prems obtain v out' where
      o: "img_children (st\<lparr>imgNum := imgNum st + 1\<rparr>) cs = Inr (st', out')" "out = html_node v # out'"
      by (auto simp: Let_def split: sum.splits jsval.splits)
    from Cons.IH [OF o(1)] o(2) True show ?thesis by (simp add: is_image_def)
  qed
qed






section \<open>Regular expressions: properties\<close>

lemma advances_refl: "advances st st"
  by (simp add: advances_def)

lemma advances_trans: "advances a b \<Longrightarrow> advances b c \<Longrightarrow> advances a c"
  by (auto simp: advances_def)

lemma one_char_advances: "st' \<in> set (one_char P st) \<Longrightarrow> advances st st'"
  by (cases st) (auto simp: one_char_def advances_def split: list.splits if_splits)

lemma set_cap_advances: "advances st x \<Longrightarrow> advances st (set_cap k st x)"
  by (cases st; cases x) (simp add: set_cap_def advances_def)

lemma ms_advances: "st' \<in> set (ms r st) \<Longrightarrow> advances st st'"
proof (induction r st arbitrary: st' rule: ms.induct)
  case (1 c st)
  then show ?case by (simp add: ms.simps one_char_advances)
next
  case (2 rs st)
  then show ?case by (simp add: ms.simps one_char_advances)
next
  case (3 rs st)
  then show ?case by (simp add: ms.simps one_char_advances)
next
  case (4 st)
  then show ?case by (simp add: ms.simps one_char_advances)
next
  case (5 a b st)
  from "5.prems" obtain x where m: "x \<in> set (ms a st)" "st' \<in> set (ms b x)"
    by (auto simp: ms.simps(5))
  from "5.IH"(1) [OF m(1)] "5.IH"(2) [OF m(1) m(2)] show ?case by (rule advances_trans)
next
  case (6 a b st)
  from "6.prems" have "st' \<in> set (ms a st) \<or> st' \<in> set (ms b st)"
    by (simp add: ms.simps(6))
  with "6.IH" show ?case by blast
next
  case (7 r st)
  from "7.prems" have "st' = st \<or> (\<exists>x\<in>set (filter (shorter st) (ms r st)). st' \<in> set (ms (RLazy r) x))"
    by (subst (asm) ms.simps) auto
  then show ?case
  proof
    assume "st' = st"
    then show ?thesis by (simp add: advances_refl)
  next
    assume "\<exists>x\<in>set (filter (shorter st) (ms r st)). st' \<in> set (ms (RLazy r) x)"
    then obtain x where m: "x \<in> set (filter (shorter st) (ms r st))" "st' \<in> set (ms (RLazy r) x)"
      by blast
    from m(1) have "x \<in> set (ms r st)" by simp
    from "7.IH"(1) [OF this] "7.IH"(2) [OF m(1) m(2)] show ?thesis by (rule advances_trans)
  qed
next
  case (8 r st)
  from "8.prems" have "st' = st \<or> (\<exists>x\<in>set (filter (shorter st) (ms r st)). st' \<in> set (ms (RStar r) x))"
    by (subst (asm) ms.simps) auto
  then show ?case
  proof
    assume "st' = st"
    then show ?thesis by (simp add: advances_refl)
  next
    assume "\<exists>x\<in>set (filter (shorter st) (ms r st)). st' \<in> set (ms (RStar r) x)"
    then obtain x where m: "x \<in> set (filter (shorter st) (ms r st))" "st' \<in> set (ms (RStar r) x)"
      by blast
    from m(1) have "x \<in> set (ms r st)" by simp
    from "8.IH"(1) [OF this] "8.IH"(2) [OF m(1) m(2)] show ?thesis by (rule advances_trans)
  qed
next
  case (9 k r st)
  from "9.prems" obtain x where m: "x \<in> set (ms r st)" "st' = set_cap k st x"
    by (auto simp: ms.simps(9))
  from "9.IH" [OF m(1)] m(2) show ?case by (simp add: set_cap_advances)
next
  case (10 r st)
  then show ?case by (simp add: ms.simps(10) advances_refl split: if_splits)
next
  case (11 st)
  then show ?case by (simp add: ms.simps(11) advances_refl split: if_splits)
next
  case (12 st)
  then show ?case by (simp add: ms.simps(12) advances_refl)
qed

lemma scan_Mt:
  "Mt cs \<in> set (scan r p s) \<Longrightarrow>
     \<exists>p0 s0 p' s' cs0. exec r p0 s0 = Some (p', s', cs0) \<and> length s' < length s0
        \<and> cs = (0, take (p' - p0) s0) # cs0"
proof (induction r p s rule: scan.induct)
  case (1 r p)
  then show ?case by simp
next
  case (2 r p x xs)
  show ?case
  proof (cases "exec r p (x # xs)")
    case None
    with "2.prems" "2.IH"(1) show ?thesis by auto
  next
    case (Some m)
    obtain p' s' cs0 where m: "m = (p', s', cs0)" by (cases m) auto
    show ?thesis
    proof (cases "length s' \<le> length xs")
      case True
      with "2.prems" Some m have "cs = (0, take (p' - p) (x # xs)) # cs0 \<or> Mt cs \<in> set (scan r p' s')"
        by auto
      then show ?thesis
      proof
        assume "cs = (0, take (p' - p) (x # xs)) # cs0"
        with Some m True have "exec r p (x # xs) = Some (p', s', cs0) \<and> length s' < length (x # xs)
            \<and> cs = (0, take (p' - p) (x # xs)) # cs0" by simp
        then show ?thesis by blast
      next
        assume "Mt cs \<in> set (scan r p' s')"
        from "2.IH"(2) [OF Some m [symmetric] refl True this] show ?thesis .
      qed
    next
      case False
      with "2.prems" Some m have "Mt cs \<in> set (scan r (Suc p) xs)" by auto
      from "2.IH"(3) [OF Some m [symmetric] refl False this] show ?thesis .
    qed
  qed
qed

lemma ms_seq: "x \<in> set (ms (RSeq a b) st) \<Longrightarrow> \<exists>y\<in>set (ms a st). x \<in> set (ms b y)"
  by (auto simp: ms.simps(5))

lemma one_char_caps: "x \<in> set (one_char P st) \<Longrightarrow> snd (snd x) = snd (snd st)"
  by (cases st) (auto simp: one_char_def split: list.splits if_splits)

lemma no_reserved:
  assumes "ms (RAlt (RChar cTbl) (RChar cFig)) (p, s, cs) = []"
  shows "\<not> starts_with (take k s) [cTbl] \<and> \<not> starts_with (take k s) [cFig]"
proof (cases s)
  case Nil
  then show ?thesis by (simp add: starts_with_def)
next
  case (Cons x xs)
  with assms have "x \<noteq> cTbl \<and> x \<noteq> cFig"
    by (auto simp: ms.simps one_char_def split: if_splits)
  with Cons show ?thesis by (cases k) (auto simp: starts_with_def)
qed

lemma footnote_match:
  assumes "(p', s', cs0) \<in> set (ms footnoteCaptureRegex (p0, s0, []))"
  shows "map_of cs0 1 = Some (take (p' - p0) s0)
         \<and> (\<exists>c. map_of cs0 2 = Some c \<and> \<not> starts_with c [cTbl] \<and> \<not> starts_with c [cFig])"
proof -
  let ?NA = "RNotAhead (RAlt (RChar cTbl) (RChar cFig))"
  let ?G2 = "RGroup 2 (RLazy (RNotClass [(0x5D, 0x5D)]))"
  let ?st = "(p0, s0, [])"
  from assms obtain x where
    x: "x \<in> set (ms (RSeq (RChar 0x5B) (RSeq (RChar 0x5E) (RSeq ?NA (RSeq ?G2 (RSeq (RChar 0x5D) REps))))) ?st)"
    and c0: "(p', s', cs0) = set_cap 1 ?st x"
    by (auto simp: footnoteCaptureRegex_def rseq_def ms.simps(9))
  from ms_seq [OF x] obtain x1 where
    x1: "x \<in> set (ms (RSeq (RChar 0x5E) (RSeq ?NA (RSeq ?G2 (RSeq (RChar 0x5D) REps)))) x1)" by blast
  from ms_seq [OF x1] obtain x2 where
    x2: "x \<in> set (ms (RSeq ?NA (RSeq ?G2 (RSeq (RChar 0x5D) REps))) x2)" by blast
  from ms_seq [OF x2] obtain x3 where
    n3: "x3 \<in> set (ms ?NA x2)" and x3: "x \<in> set (ms (RSeq ?G2 (RSeq (RChar 0x5D) REps)) x3)" by blast
  from ms_seq [OF x3] obtain x4 where
    g4: "x4 \<in> set (ms ?G2 x3)" and x4: "x \<in> set (ms (RSeq (RChar 0x5D) REps) x4)" by blast
  from ms_seq [OF x4] obtain x5 where
    c5: "x5 \<in> set (ms (RChar 0x5D) x4)" and x5: "x \<in> set (ms REps x5)" by blast
  obtain p3 s3 cs3 where t3: "x3 = (p3, s3, cs3)" by (cases x3) auto
  from n3 t3 have na: "ms (RAlt (RChar cTbl) (RChar cFig)) (p3, s3, cs3) = []"
    by (auto simp: ms.simps(10) split: if_splits)
  from g4 t3 obtain py sy csy where
    c4: "x4 = (py, sy, (2, take (py - p3) s3) # filter (\<lambda>kv. fst kv \<noteq> 2) csy)"
    by (auto simp: ms.simps(9) set_cap_def)
  from x5 have "x = x5" by (simp add: ms.simps(12))
  moreover from c5 have "snd (snd x5) = snd (snd x4)"
    by (simp add: ms.simps(1) one_char_caps)
  ultimately have cx: "snd (snd x) = (2, take (py - p3) s3) # filter (\<lambda>kv. fst kv \<noteq> 2) csy"
    using c4 by simp
  obtain px sx where tx: "x = (px, sx, (2, take (py - p3) s3) # filter (\<lambda>kv. fst kv \<noteq> 2) csy)"
    using cx by (cases x) auto
  from c0 tx have "cs0 = (1, take (p' - p0) s0) # filter (\<lambda>kv. fst kv \<noteq> 1)
                      ((2, take (py - p3) s3) # filter (\<lambda>kv. fst kv \<noteq> 2) csy)"
    by (simp add: set_cap_def)
  then have "map_of cs0 1 = Some (take (p' - p0) s0)" and "map_of cs0 2 = Some (take (py - p3) s3)"
    by simp_all
  with no_reserved [OF na, of "py - p3"] show ?thesis by simp
qed

lemma footnote_token:
  assumes "Mt cs \<in> set (scan footnoteCaptureRegex p s)"
  shows "truthy (cap cs 1)
         \<and> (\<exists>c. cap cs 2 = Str c \<and> \<not> starts_with c [cTbl] \<and> \<not> starts_with c [cFig])"
proof -
  from scan_Mt [OF assms] obtain p0 s0 p' s' cs0 where
    e: "exec footnoteCaptureRegex p0 s0 = Some (p', s', cs0)" and l: "length s' < length s0"
    and c: "cs = (0, take (p' - p0) s0) # cs0" by blast
  from e have m: "(p', s', cs0) \<in> set (ms footnoteCaptureRegex (p0, s0, []))"
    by (auto simp: exec_def split: list.splits)
  from ms_advances [OF m] l have "0 < p' - p0" by (simp add: advances_def)
  with l have "take (p' - p0) s0 \<noteq> []" by (cases s0) auto
  with footnote_match [OF m] c show ?thesis by (auto simp: cap_def)
qed

section \<open>Footnote collector: the loop over the parts\<close>

lemma parts_loop_end: "\<not> i < length parts \<Longrightarrow> parts_loop parts i st = (st, [])"
  by (simp add: parts_loop.simps)

lemma parts_loop_text:
  assumes "i < length parts" "parts ! i = Str t" "i mod 3 = 0"
  shows "parts_loop parts i st =
           (fst (parts_loop parts (Suc i) st),
            (if t \<noteq> [] then [text_node t] else []) @ snd (parts_loop parts (Suc i) st))"
  using assms
  by (subst parts_loop.simps) (simp add: js_nth_def Let_def split: prod.splits)

lemma parts_loop_marker:
  assumes "Suc i < length parts" "truthy (parts ! i)" "i mod 3 = 1"
    and "st1 = st\<lparr>footNoteNum := Suc (footNoteNum st),
                     collectedFootnotes := collectedFootnotes st
                       @ [\<lparr>num = Suc (footNoteNum st), content = parts ! Suc i\<rparr>]\<rparr>"
  shows "parts_loop parts i st =
           (fst (parts_loop parts (Suc (Suc i)) st1),
            html_node (reference (Suc (footNoteNum st))) # snd (parts_loop parts (Suc (Suc i)) st1))"
  using assms
  by (subst parts_loop.simps) (simp add: js_nth_def Let_def split: prod.splits)

lemma numbered_append:
  "numbered n (xs @ ys) = numbered n xs @ numbered (n + length xs) ys"
  by (induction xs arbitrary: n) simp_all

lemma parts_loop_split:
  assumes "\<forall>cs. Mt cs \<in> set ts \<longrightarrow> truthy (cap cs 1)" and "length pre mod 3 = 0"
  shows "parts_loop (pre @ js_split_toks 2 acc ts) (length pre) st =
           (st\<lparr>footNoteNum := footNoteNum st + length (matches ts),
               collectedFootnotes := collectedFootnotes st
                 @ numbered (footNoteNum st) (map (\<lambda>cs. cap cs 2) (matches ts))\<rparr>,
            pushed_nodes (footNoteNum st) acc ts)"
  using assms
proof (induction ts arbitrary: pre acc st)
  case Nil
  have "parts_loop (pre @ [Str (rev acc)]) (Suc (length pre)) st = (st, [])"
    by (rule parts_loop_end) simp
  with Nil show ?case
    by (simp add: parts_loop_text [of _ _ "rev acc"])
next
  case (Cons tk ts)
  show ?case
  proof (cases tk)
    case (Ch x)
    with Cons.IH [of pre "x # acc" st] Cons.prems show ?thesis by simp
  next
    case (Mt cs)
    let ?parts = "pre @ js_split_toks 2 acc (tk # ts)"
    let ?pre' = "pre @ [Str (rev acc), cap cs 1, cap cs 2]"
    let ?st1 = "st\<lparr>footNoteNum := Suc (footNoteNum st),
                    collectedFootnotes := collectedFootnotes st
                      @ [\<lparr>num = Suc (footNoteNum st), content = cap cs 2\<rparr>]\<rparr>"
    have u: "[1..<Suc 2] = [1, 2::nat]" by (simp add: upt_rec)
    have "js_split_toks 2 acc (tk # ts) = [Str (rev acc), cap cs 1, cap cs 2] @ js_split_toks 2 [] ts"
      unfolding Mt js_split_toks.simps u by simp
    then have parts: "?parts = ?pre' @ js_split_toks 2 [] ts"
      by simp
    have tr: "truthy (cap cs 1)" using Cons.prems(1) Mt by simp
    have m3: "length ?pre' mod 3 = 0" using Cons.prems(2) by simp
    have rest: "\<forall>cs. Mt cs \<in> set ts \<longrightarrow> truthy (cap cs 1)" using Cons.prems(1) by simp
    note IH = Cons.IH [OF rest m3, of "[]" ?st1]
    have i0: "?parts ! length pre = Str (rev acc)" unfolding parts by (simp add: nth_append)
    have i1: "?parts ! Suc (length pre) = cap cs 1" unfolding parts by (simp add: nth_append)
    have i2: "?parts ! Suc (Suc (length pre)) = cap cs 2" unfolding parts by (simp add: nth_append)
    have l: "Suc (Suc (length pre)) < length ?parts" unfolding parts by simp
    have mm: "Suc (length pre) mod 3 = 1" using Cons.prems(2) by presburger
    have l0: "length pre < length ?parts" using l by linarith
    have tr': "truthy (?parts ! Suc (length pre))" using tr i1 by simp
    have lp: "length ?pre' = Suc (Suc (Suc (length pre)))" by simp
    have step2: "parts_loop ?parts (Suc (length pre)) st =
        (fst (parts_loop ?parts (Suc (Suc (Suc (length pre)))) ?st1),
         html_node (reference (Suc (footNoteNum st)))
           # snd (parts_loop ?parts (Suc (Suc (Suc (length pre)))) ?st1))"
      by (rule parts_loop_marker [OF l tr' mm]) (simp only: i2)
    have step1: "parts_loop ?parts (length pre) st =
        (fst (parts_loop ?parts (Suc (length pre)) st),
         (if rev acc \<noteq> [] then [text_node (rev acc)] else [])
         @ snd (parts_loop ?parts (Suc (length pre)) st))"
      by (rule parts_loop_text [OF l0 i0 Cons.prems(2)])
    have IH': "parts_loop ?parts (Suc (Suc (Suc (length pre)))) ?st1 =
           (?st1\<lparr>footNoteNum := footNoteNum ?st1 + length (matches ts),
               collectedFootnotes := collectedFootnotes ?st1
                 @ numbered (footNoteNum ?st1) (map (\<lambda>cs. cap cs 2) (matches ts))\<rparr>,
            pushed_nodes (footNoteNum ?st1) [] ts)"
      using IH unfolding parts lp .
    have "parts_loop ?parts (length pre) st =
        (?st1\<lparr>footNoteNum := footNoteNum ?st1 + length (matches ts),
               collectedFootnotes := collectedFootnotes ?st1
                 @ numbered (footNoteNum ?st1) (map (\<lambda>cs. cap cs 2) (matches ts))\<rparr>,
         (if rev acc \<noteq> [] then [text_node (rev acc)] else [])
         @ html_node (reference (Suc (footNoteNum st))) # pushed_nodes (footNoteNum ?st1) [] ts)"
      unfolding step1 step2 IH' by simp
    then show ?thesis using Mt by simp
  qed
qed

lemma js_split_toks_length:
  "length (js_split_toks n acc ts) = 1 + Suc n * length (matches ts)"
proof (induction ts arbitrary: acc)
  case Nil
  then show ?case by simp
next
  case (Cons tk ts)
  then show ?case by (cases tk) simp_all
qed

lemma js_split_toks_no_match:
  "matches ts = [] \<Longrightarrow> pushed_nodes n acc ts = (if rev acc @ [x. Ch x \<leftarrow> ts] \<noteq> [] then [text_node (rev acc @ [x. Ch x \<leftarrow> ts])] else [])"
proof (induction ts arbitrary: acc)
  case Nil
  then show ?case by simp
next
  case (Cons tk ts)
  then show ?case by (cases tk) simp_all
qed

section \<open>Footnote collector: properties\<close>


lemma footnote_children_collect:
  "footnote_children st cs = (st', out) \<Longrightarrow>
     st' = st\<lparr>footNoteNum := footNoteNum st + length (markers cs),
              collectedFootnotes := collectedFootnotes st @ numbered (footNoteNum st) (markers cs)\<rparr>"
proof (induction cs arbitrary: st st' out)
  case Nil
  then show ?case by (simp add: markers_def)
next
  case (Cons a cs)
  let ?ts = "scan footnoteCaptureRegex 0 (or_empty (nvalue a))"
  let ?parts = "js_split footnoteCaptureRegex 2 (or_empty (nvalue a))"
  show ?case
  proof (cases "ntype a \<noteq> Text \<and> ntype a \<noteq> Html")
    case True
    with Cons.prems obtain out' where o: "footnote_children st cs = (st', out')"
      by (auto split: prod.splits)
    from Cons.IH [OF o] True show ?thesis by (simp add: markers_def)
  next
    case cand: False
    show ?thesis
    proof (cases "length ?parts = 1")
      case True
      then have "matches ?ts = []"
        by (simp add: js_split_def js_split_toks_length)
      then have m: "markers (a # cs) = markers cs"
        by (simp add: markers_def marker_contents_def)
      from True cand Cons.prems obtain out' where o: "footnote_children st cs = (st', out')"
        by (auto simp: Let_def split: prod.splits)
      from Cons.IH [OF o] m show ?thesis by simp
    next
      case False
      let ?st1 = "st\<lparr>footNoteNum := footNoteNum st + length (matches ?ts),
               collectedFootnotes := collectedFootnotes st
                 @ numbered (footNoteNum st) (map (\<lambda>cs. cap cs 2) (matches ?ts))\<rparr>"
      have tr: "\<forall>cs. Mt cs \<in> set ?ts \<longrightarrow> truthy (cap cs 1)"
        using footnote_token by blast
      have pl: "parts_loop ?parts 0 st = (?st1, pushed_nodes (footNoteNum st) [] ?ts)"
        using parts_loop_split [OF tr, of "[]" "[]" st] by (simp add: js_split_def)
      from False cand Cons.prems pl obtain out' where o: "footnote_children ?st1 cs = (st', out')"
        by (auto simp: Let_def split: prod.splits)
      have m: "markers (a # cs) = map (\<lambda>cs. cap cs 2) (matches ?ts) @ markers cs"
        using cand by (auto simp: markers_def marker_contents_def)
      from Cons.IH [OF o] m show ?thesis by (simp add: numbered_append)
    qed
  qed
qed


lemma numbered_nums: "map num (numbered n cs) = [Suc n..<Suc (n + length cs)]"
proof (induction cs arbitrary: n)
  case Nil
  then show ?case by simp
next
  case (Cons c cs)
  have "[Suc n..<Suc (n + length (c # cs))] = Suc n # [Suc (Suc n)..<Suc (Suc n + length cs)]"
    by (simp add: upt_conv_Cons del: upt_Suc)
  with Cons show ?case by simp
qed

lemma numbered_length [simp]: "length (numbered n cs) = length cs"
  by (induction cs arbitrary: n) simp_all


lemma fn_step_refl: "fn_step st st"
  by (simp add: fn_step_def)

lemma fn_step_trans: "fn_step a b \<Longrightarrow> fn_step b c \<Longrightarrow> fn_step a c"
  by (auto simp: fn_step_def)

lemma fn_step_same:
  "collectedFootnotes st' = collectedFootnotes st \<Longrightarrow> footNoteNum st' = footNoteNum st \<Longrightarrow> fn_step st st'"
  by (simp add: fn_step_def fn_inv_def)

lemma fn_step_footnotes: "footnote_children st cs = (st', out) \<Longrightarrow> fn_step st st'"
proof -
  assume "footnote_children st cs = (st', out)"
  note c = footnote_children_collect [OF this]
  let ?fs = "collectedFootnotes st"
  let ?ms = "markers cs"
  have more: "collectedFootnotes st' = ?fs @ numbered (footNoteNum st) ?ms"
    and n: "footNoteNum st' = footNoteNum st + length ?ms"
    by (subst c, simp)+
  have "fn_inv st'" if i: "fn_inv st"
  proof -
    from i have f: "footNoteNum st = length ?fs" and m: "map num ?fs = [1..<Suc (length ?fs)]"
      by (simp_all add: fn_inv_def)
    have "map num (collectedFootnotes st') = [1..<Suc (length ?fs)] @ [Suc (length ?fs)..<Suc (length ?fs) + length ?ms]"
      using more m f by (simp add: numbered_nums del: upt_Suc)
    also have "\<dots> = [1..<Suc (length ?fs) + length ?ms]"
      by (rule upt_add_eq_append [symmetric]) simp
    finally show ?thesis
      using more n f by (simp add: fn_inv_def del: upt_Suc)
  qed
  with more show ?thesis by (auto simp: fn_step_def)
qed


lemma push_caption_state: "push_caption st t = Inr (st', c) \<Longrightarrow> st' = st\<lparr>tblNum := Suc (tblNum st)\<rparr>"
  by (auto simp: push_caption_def Let_def split: sum.splits)

lemma tbl_children_state:
  "tbl_children st a b t cs = Inr (st', out) \<Longrightarrow> \<exists>k. st' = st\<lparr>tblNum := k\<rparr>"
proof (induction cs arbitrary: st a b t out)
  case Nil
  show ?case
  proof (cases a)
    case True
    with Nil obtain c where "push_caption st t = Inr (st', c)" by (auto split: sum.splits)
    from push_caption_state [OF this] show ?thesis by blast
  next
    case False
    with Nil have "st' = st\<lparr>tblNum := tblNum st\<rparr>" by simp
    then show ?thesis by blast
  qed
next
  case (Cons c cs)
  show ?case
  proof (cases "ntype c = TableRow")
    case True
    obtain t1 row b1 where f: "(if b then first_row t c else (t, c, b)) = (t1, row, b1)"
      by (cases "if b then first_row t c else (t, c, b)") auto
    from Cons.prems True f obtain out' where "tbl_children st True b1 t1 cs = Inr (st', out')"
      by (auto split: sum.splits)
    from Cons.IH [OF this] show ?thesis .
  next
    case False
    show ?thesis
    proof (cases a)
      case True
      with False Cons.prems obtain st1 cap out' where
        o: "push_caption st t = Inr (st1, cap)" "tbl_children st1 False b t cs = Inr (st', out')"
        by (auto split: sum.splits)
      from Cons.IH [OF o(2)] push_caption_state [OF o(1)] show ?thesis by auto
    next
      case na: False
      with False Cons.prems obtain out' where "tbl_children st a b t cs = Inr (st', out')"
        by (auto split: sum.splits)
      from Cons.IH [OF this] show ?thesis .
    qed
  qed
qed

lemma fn_pass_pure: "fn_pass (pure_pass f)"
  by (auto simp: fn_pass_def pure_pass_def fn_step_refl split: sum.splits)

lemma fn_pass_footnoteRegex: "fn_pass footnoteRegex"
  by (auto simp: fn_pass_def footnoteRegex_def split: option.splits dest: fn_step_footnotes)

lemma fn_pass_imgRegex: "fn_pass imgRegex"
  by (auto simp: fn_pass_def imgRegex_def split: option.splits
           dest!: img_children_state intro!: fn_step_same)

lemma fn_pass_tblRegex: "fn_pass tblRegex"
  by (auto simp: fn_pass_def tblRegex_def split: option.splits
           dest!: tbl_children_state intro!: fn_step_same)

lemma fn_passes: "\<forall>f\<in>set passes. fn_pass f"
  by (simp add: passes_def rx_pass_def fn_pass_pure fn_pass_footnoteRegex fn_pass_imgRegex
        fn_pass_tblRegex)

lemma run_passes_fn_step:
  "\<forall>f\<in>set fs. fn_pass f \<Longrightarrow> run_passes fs st node = Inr (st', node') \<Longrightarrow> fn_step st st'"
proof (induction fs arbitrary: st node)
  case Nil
  then show ?case by (simp add: fn_step_refl)
next
  case (Cons f fs)
  from Cons.prems(2) obtain st1 out where
    f: "f st node = Inr (st1, out)" and r: "run_passes fs st1 (set_children node out) = Inr (st', node')"
    by (auto split: sum.splits)
  from Cons.prems(1) f have "fn_step st st1" by (auto simp: fn_pass_def)
  moreover from Cons.IH [OF _ r] Cons.prems(1) have "fn_step st1 st'" by simp
  ultimately show ?case by (rule fn_step_trans)
qed

lemma visitor_fn_step: "visitor st node = Inr (st', node') \<Longrightarrow> fn_step st st'"
  by (auto simp: visitor_def fn_step_refl split: option.splits
           dest: run_passes_fn_step [OF fn_passes])

lemma visit_fn_step:
  "visit_node st node = Inr (st', node') \<Longrightarrow> fn_step st st'"
  "visit_list st2 cs = Inr (st2', cs') \<Longrightarrow> fn_step st2 st2'"
proof (induction st node and st2 cs arbitrary: st' node' and st2' cs'
       rule: visit_node_visit_list.induct)
  case (1 st node)
  note v = "1.prems"
  obtain st1 node1 where
    f: "(if is_visited (ntype node) then visitor st node else Inr (st, node)) = Inr (st1, node1)"
    using v by (auto simp: visit_node.simps [of st node] split: sum.splits)
  then have s1: "fn_step st st1"
    by (auto split: if_splits simp: fn_step_refl dest: visitor_fn_step)
  show ?case
  proof (cases "nchildren node1")
    case None
    with v f have "st' = st1" by (simp add: visit_node.simps [of st node])
    with s1 show ?thesis by simp
  next
    case (Some cs1)
    with v f obtain cs2 where l: "visit_list st1 cs1 = Inr (st', cs2)"
      by (auto simp: visit_node.simps [of st node] split: sum.splits)
    from "1.IH" [OF f refl Some l] have "fn_step st1 st'" .
    with s1 show ?thesis by (rule fn_step_trans)
  qed
next
  case (2 st)
  then show ?case by (simp add: fn_step_refl)
next
  case (3 st child rest)
  from "3.prems" obtain st1 child' rest' where
    c: "visit_node st child = Inr (st1, child')" and r: "visit_list st1 rest = Inr (st2', rest')"
    by (auto split: sum.splits)
  from "3.IH"(1) [OF c] have "fn_step st st1" .
  moreover from "3.IH"(2) [OF c refl r] have "fn_step st1 st2'" .
  ultimately show ?case by (rule fn_step_trans)
qed

lemma fn_inv_init: "fn_inv init_state"
  by (simp add: fn_inv_def init_state_def)

lemma show_nat_length: "length (show_nat n) = 1 \<longleftrightarrow> n < 10"
proof (cases "n < 10")
  case True
  then show ?thesis by (simp add: show_nat.simps [of n])
next
  case False
  have "show_nat (n div 10) \<noteq> []" by (simp add: show_nat.simps [of "n div 10"])
  with False show ?thesis by (simp add: show_nat.simps [of n])
qed

lemma show_nat_inj: "show_nat n = show_nat m \<Longrightarrow> n = m"
proof (induction n arbitrary: m rule: show_nat.induct)
  case (1 n)
  show ?case
  proof (cases "n < 10")
    case True
    with "1.prems" show_nat_length [of n] show_nat_length [of m] have "m < 10" by simp
    with True "1.prems" show ?thesis by (simp add: show_nat.simps [of n] show_nat.simps [of m])
  next
    case False
    with "1.prems" show_nat_length [of n] show_nat_length [of m] have m: "\<not> m < 10" by simp
    with False "1.prems" have "show_nat (n div 10) = show_nat (m div 10)" and d: "n mod 10 = m mod 10"
      by (simp_all add: show_nat.simps [of n] show_nat.simps [of m])
    from "1.IH" [OF False this(1)] have "n div 10 = m div 10" .
    with d show ?thesis by (metis div_mult_mod_eq)
  qed
qed

lemma reference_ids:
  "reference n = asc ''<a class=\"comment_forward_link\" href=\"#'' @ bwd_id n @ asc ''\" id=\"''
                 @ fwd_id n @ asc ''\">['' @ show_nat n @ asc '']</a>''"
  by (simp add: reference_def fwd_id_def bwd_id_def asc_def)

lemma footnote_block_ids:
  "footnote_block f =
     html_node (asc ''<table class=\"comment\"><tr class=\"comment\"><td class=\"comment\"><a href=\"#''
       @ fwd_id (num f) @ asc ''\" id=\"'' @ bwd_id (num f) @ asc ''\">['' @ show_nat (num f)
       @ asc '']</a></td><td class=\"comment\">'' @ to_string (content f)
       @ asc ''</td></tr></table>'')"
  by (simp add: footnote_block_def fwd_id_def bwd_id_def asc_def)

lemma ids_distinct:
  assumes "map num fs = [1..<Suc (length fs)]"
  shows "distinct (map (\<lambda>f. fwd_id (num f)) fs) \<and> distinct (map (\<lambda>f. bwd_id (num f)) fs)"
proof -
  have d: "distinct (map num fs)" using assms by simp
  have i: "inj_on fwd_id (set (map num fs))" "inj_on bwd_id (set (map num fs))"
    by (auto simp: inj_on_def fwd_id_def bwd_id_def dest: show_nat_inj)
  have "distinct (map fwd_id (map num fs))" "distinct (map bwd_id (map num fs))"
    using d i by (simp_all only: distinct_map simp_thms)
  then show ?thesis by (simp add: comp_def)
qed

lemma markdownReplace_state:
  assumes "markdownReplace tree = Inr (st, tree')"
  shows "fn_inv st \<and> (\<exists>cs. nchildren tree' = Some (cs @ footnote_section (collectedFootnotes st)))"
proof -
  from assms obtain tree1 cs where
    v: "visit_node init_state tree = Inr (st, tree1)" and c: "nchildren tree1 = Some cs"
    and t: "tree' = set_children tree1 (trailing_mark cs @ footnote_section (collectedFootnotes st))"
    by (auto simp: markdownReplace_def split: sum.splits option.splits)
  from visit_fn_step(1) [OF v] fn_inv_init have "fn_inv st" by (simp add: fn_step_def)
  moreover from t have "nchildren tree' = Some (trailing_mark cs @ footnote_section (collectedFootnotes st))"
    by (simp add: set_children_def)
  ultimately show ?thesis by blast
qed

lemma footnote_section_nth:
  "map num fs = [1..<Suc (length fs)] \<Longrightarrow> k < length fs \<Longrightarrow>
     footnote_section fs ! Suc k = footnote_block \<lparr>num = Suc k, content = content (fs ! k)\<rparr>"
proof -
  assume m: "map num fs = [1..<Suc (length fs)]" and k: "k < length fs"
  then have "num (fs ! k) = Suc k"
    by (metis nth_map nth_upt plus_1_eq_Suc Suc_less_eq)
  then have "fs ! k = \<lparr>num = Suc k, content = content (fs ! k)\<rparr>" by (cases "fs ! k") simp
  with k show ?thesis by (auto simp: footnote_section_def)
qed

text \<open>
  Claim C9. After a traversal the i-th collected footnote carries number i and the counter
  is the number of entries; the forward ids and the backward ids of the entries are
  pairwise distinct (the decimal digits of distinct numbers differ); the tree ends with
  the footnote section, whose k-th block after the divider is the block of number k, that
  is, labelled \<open>[k]\<close>. During the traversal every pass and every visit of a subtree only
  appends to the list and keeps it numbered 1, 2, 3, ..., from the empty list on.
\<close>

theorem footnote_numbers_consecutive:
  "(markdownReplace tree = Inr (st, tree') \<longrightarrow>
      map num (collectedFootnotes st) = [1..<Suc (length (collectedFootnotes st))]
      \<and> footNoteNum st = length (collectedFootnotes st)
      \<and> distinct (map (\<lambda>f. fwd_id (num f)) (collectedFootnotes st))
      \<and> distinct (map (\<lambda>f. bwd_id (num f)) (collectedFootnotes st))
      \<and> (\<exists>cs. nchildren tree' = Some (cs @ footnote_section (collectedFootnotes st)))
      \<and> (\<forall>k<length (collectedFootnotes st).
            footnote_section (collectedFootnotes st) ! Suc k
              = footnote_block \<lparr>num = Suc k, content = content (collectedFootnotes st ! k)\<rparr>))
   \<and> (fn_inv st0 \<and> visit_node st0 node = Inr (st1, node1) \<longrightarrow>
        fn_inv st1 \<and> (\<exists>more. collectedFootnotes st1 = collectedFootnotes st0 @ more))
   \<and> (fn_inv st0 \<and> f \<in> set passes \<and> f st0 node2 = Inr (st2, out) \<longrightarrow>
        fn_inv st2 \<and> (\<exists>more. collectedFootnotes st2 = collectedFootnotes st0 @ more))
   \<and> fn_inv init_state
   \<and> reference n = asc ''<a class=\"comment_forward_link\" href=\"#'' @ bwd_id n @ asc ''\" id=\"''
                 @ fwd_id n @ asc ''\">['' @ show_nat n @ asc '']</a>''
   \<and> footnote_block fn =
     html_node (asc ''<table class=\"comment\"><tr class=\"comment\"><td class=\"comment\"><a href=\"#''
       @ fwd_id (num fn) @ asc ''\" id=\"'' @ bwd_id (num fn) @ asc ''\">['' @ show_nat (num fn)
       @ asc '']</a></td><td class=\"comment\">'' @ to_string (content fn)
       @ asc ''</td></tr></table>'')"
proof -
  have a: "markdownReplace tree = Inr (st, tree') \<longrightarrow>
      map num (collectedFootnotes st) = [1..<Suc (length (collectedFootnotes st))]
      \<and> footNoteNum st = length (collectedFootnotes st)
      \<and> distinct (map (\<lambda>f. fwd_id (num f)) (collectedFootnotes st))
      \<and> distinct (map (\<lambda>f. bwd_id (num f)) (collectedFootnotes st))
      \<and> (\<exists>cs. nchildren tree' = Some (cs @ footnote_section (collectedFootnotes st)))
      \<and> (\<forall>k<length (collectedFootnotes st).
            footnote_section (collectedFootnotes st) ! Suc k
              = footnote_block \<lparr>num = Suc k, content = content (collectedFootnotes st ! k)\<rparr>)"
  proof
    assume "markdownReplace tree = Inr (st, tree')"
    from markdownReplace_state [OF this] have i: "fn_inv st"
      and c: "\<exists>cs. nchildren tree' = Some (cs @ footnote_section (collectedFootnotes st))"
      by blast+
    from i have m: "map num (collectedFootnotes st) = [1..<Suc (length (collectedFootnotes st))]"
      and n: "footNoteNum st = length (collectedFootnotes st)"
      by (simp_all add: fn_inv_def)
    from m n c ids_distinct [OF m] footnote_section_nth [OF m]
    show "map num (collectedFootnotes st) = [1..<Suc (length (collectedFootnotes st))]
      \<and> footNoteNum st = length (collectedFootnotes st)
      \<and> distinct (map (\<lambda>f. fwd_id (num f)) (collectedFootnotes st))
      \<and> distinct (map (\<lambda>f. bwd_id (num f)) (collectedFootnotes st))
      \<and> (\<exists>cs. nchildren tree' = Some (cs @ footnote_section (collectedFootnotes st)))
      \<and> (\<forall>k<length (collectedFootnotes st).
            footnote_section (collectedFootnotes st) ! Suc k
              = footnote_block \<lparr>num = Suc k, content = content (collectedFootnotes st ! k)\<rparr>)"
      by blast
  qed
  have b: "fn_inv st0 \<and> visit_node st0 node = Inr (st1, node1) \<longrightarrow>
        fn_inv st1 \<and> (\<exists>more. collectedFootnotes st1 = collectedFootnotes st0 @ more)"
    using visit_fn_step(1) [of st0 node st1 node1] by (auto simp: fn_step_def)
  have c: "fn_inv st0 \<and> f \<in> set passes \<and> f st0 node2 = Inr (st2, out) \<longrightarrow>
        fn_inv st2 \<and> (\<exists>more. collectedFootnotes st2 = collectedFootnotes st0 @ more)"
  proof (intro impI, elim conjE)
    assume i: "fn_inv st0" and m: "f \<in> set passes" and r: "f st0 node2 = Inr (st2, out)"
    from fn_passes m have "fn_pass f" by blast
    with r have "fn_step st0 st2" unfolding fn_pass_def by blast
    with i show "fn_inv st2 \<and> (\<exists>more. collectedFootnotes st2 = collectedFootnotes st0 @ more)"
      by (simp add: fn_step_def)
  qed
  from a b c fn_inv_init reference_ids [of n] footnote_block_ids [of fn] show ?thesis
    by (intro conjI)
qed

section \<open>Regular expressions: a filter for the scan\<close>

lemma ms_first_unit:
  "fst (snd st) = x # xs \<Longrightarrow> \<not> first_unit r (fst st) x \<Longrightarrow>
     (\<forall>st'\<in>set (ms r st). fst st' = fst st \<and> fst (snd st') = fst (snd st))
     \<and> (\<not> nullable r (fst st) \<longrightarrow> ms r st = [])"
proof (induction r arbitrary: st)
  case (RChar c)
  then show ?case by (cases st) (auto simp: ms.simps(1-4) one_char_def)
next
  case (RClass rs)
  then show ?case by (cases st) (auto simp: ms.simps(1-4) one_char_def)
next
  case (RNotClass rs)
  then show ?case by (cases st) (auto simp: ms.simps(1-4) one_char_def)
next
  case RDot
  then show ?case by (cases st) (auto simp: ms.simps(1-4) one_char_def)
next
  case (RSeq a b)
  from RSeq.prems have fa: "\<not> first_unit a (fst st) x" by simp
  note A = RSeq.IH(1) [OF RSeq.prems(1) fa]
  show ?case
  proof (cases "nullable a (fst st)")
    case False
    with A have "ms a st = []" by simp
    then show ?thesis by (simp add: ms.simps(5))
  next
    case True
    with RSeq.prems have fb: "\<not> first_unit b (fst st) x" by simp
    have B: "(\<forall>st''\<in>set (ms b st'). fst st'' = fst st \<and> fst (snd st'') = fst (snd st))
        \<and> (\<not> nullable b (fst st) \<longrightarrow> ms b st' = [])" if "st' \<in> set (ms a st)" for st'
    proof -
      from A that have e: "fst st' = fst st" "fst (snd st') = fst (snd st)" by simp_all
      from RSeq.IH(2) [of st'] e RSeq.prems(1) fb show ?thesis by simp
    qed
    have 1: "\<forall>st'\<in>set (ms (RSeq a b) st). fst st' = fst st \<and> fst (snd st') = fst (snd st)"
      using B by (simp add: ms.simps(5))
    have 2: "ms (RSeq a b) st = []" if "\<not> nullable (RSeq a b) (fst st)"
    proof -
      from that True have "\<not> nullable b (fst st)" by simp
      with B have "\<forall>st'\<in>set (ms a st). ms b st' = []" by blast
      then show ?thesis by (simp add: ms.simps(5))
    qed
    show ?thesis
    proof (intro conjI impI)
      show "\<forall>st'\<in>set (ms (RSeq a b) st). fst st' = fst st \<and> fst (snd st') = fst (snd st)"
        by (rule 1)
    next
      assume "\<not> nullable (RSeq a b) (fst st)"
      then show "ms (RSeq a b) st = []" by (rule 2)
    qed
  qed
next
  case (RAlt a b)
  from RAlt.prems(2) have f: "\<not> first_unit a (fst st) x" "\<not> first_unit b (fst st) x"
    by simp_all
  note A = RAlt.IH(1) [OF RAlt.prems(1) f(1)] and B = RAlt.IH(2) [OF RAlt.prems(1) f(2)]
  have 1: "\<forall>st'\<in>set (ms (RAlt a b) st). fst st' = fst st \<and> fst (snd st') = fst (snd st)"
    unfolding ms.simps(6) set_append ball_Un using A B by blast
  have 2: "ms (RAlt a b) st = []" if "\<not> nullable (RAlt a b) (fst st)"
  proof -
    from that have "\<not> nullable a (fst st)" "\<not> nullable b (fst st)" by simp_all
    with A B have "ms a st = []" "ms b st = []" by blast+
    then show ?thesis unfolding ms.simps(6) by simp
  qed
  show ?case
  proof (intro conjI impI)
    show "\<forall>st'\<in>set (ms (RAlt a b) st). fst st' = fst st \<and> fst (snd st') = fst (snd st)"
      by (rule 1)
  next
    assume "\<not> nullable (RAlt a b) (fst st)"
    then show "ms (RAlt a b) st = []" by (rule 2)
  qed
next
  case (RLazy r)
  from RLazy.prems have f: "\<not> first_unit r (fst st) x" by simp
  from RLazy.IH [OF RLazy.prems(1) f] have "filter (shorter st) (ms r st) = []"
    by (auto simp: filter_empty_conv shorter_def)
  then show ?case by (subst ms.simps, subst ms.simps) simp
next
  case (RStar r)
  from RStar.prems have f: "\<not> first_unit r (fst st) x" by simp
  from RStar.IH [OF RStar.prems(1) f] have "filter (shorter st) (ms r st) = []"
    by (auto simp: filter_empty_conv shorter_def)
  then show ?case by (subst ms.simps, subst ms.simps) simp
next
  case (RGroup k r)
  from RGroup.prems have f: "\<not> first_unit r (fst st) x" by simp
  from RGroup.IH [OF RGroup.prems(1) f] show ?case
    by (auto simp: ms.simps(9) set_cap_def split: prod.splits)
next
  case (RNotAhead r)
  show ?case by (simp add: ms.simps(10))
next
  case RBol
  show ?case by (simp add: ms.simps(11))
next
  case REps
  show ?case by (simp add: ms.simps(12))
qed

lemma exec_none: "\<not> can_start r p x \<Longrightarrow> exec r p (x # xs) = None"
  using ms_first_unit [of "(p, x # xs, [])" x xs r] by (simp add: can_start_def exec_def)

lemma scan_code:
  "scan r p (x # xs) =
     (if can_start r p x then
        (case exec r p (x # xs) of
           None \<Rightarrow> Ch x # scan r (Suc p) xs
         | Some (p', s', cs) \<Rightarrow>
             if length s' \<le> length xs
             then Mt ((0, take (p' - p) (x # xs)) # cs) # scan r p' s'
             else Ch x # scan r (Suc p) xs)
      else Ch x # scan r (Suc p) xs)"
  by (simp add: exec_none)

lemma scan_no_start: "no_start r p s \<Longrightarrow> scan r p s = map Ch s"
  by (induction s arbitrary: p) (simp_all add: exec_none)

lemma js_replace_toks_Ch: "js_replace_toks t (map Ch s) = s"
  by (induction s) simp_all

lemma replace_code:
  "js_replace r t s = (if no_start r 0 s then s else js_replace_toks t (scan r 0 s))"
  by (simp add: js_replace_def scan_no_start js_replace_toks_Ch)

section \<open>Evaluation of examples\<close>

text \<open>The definitions that the simplifier unfolds to run the model on a concrete tree.\<close>

lemmas rx_eval =
  js_replace_def js_split_def exec_def ms.simps one_char_def set_cap_def shorter_def in_ranges_def
  line_terminator_def rseq_def rlit_def rspace_def cap_def asc_def
  rx_pct20_def tp_space_def rx_anchor_desc_def tp_anchor_desc_def rx_anchor_def tp_anchor_def
  rx_post_desc_def tp_post_desc_def rx_post_def tp_post_def rx_img_ref_def tp_img_ref_def
  rx_tbl_ref_def tp_tbl_ref_def rx_emph_def tp_emph_def cjk_def alnum_def rx_cjk_latin_def
  rx_latin_cjk_def tp_spaced_def rx_collapse_def tp_joined_def rx_invisible_def tp_invisible_def
  rx_attribution_def tp_attribution_def rx_directive_def tp_wrap_def footnoteCaptureRegex_def
  cTen_def cFig_def cTbl_def cColon_def cPilcrow_def

text \<open>The same with the filter: a position where no match can start is passed over without
  running the matcher.\<close>

lemmas rx_fast =
  replace_code scan_code can_start_def js_split_def exec_def ms.simps one_char_def set_cap_def shorter_def in_ranges_def
  line_terminator_def rseq_def rlit_def rspace_def cap_def asc_def
  rx_pct20_def tp_space_def rx_anchor_desc_def tp_anchor_desc_def rx_anchor_def tp_anchor_def
  rx_post_desc_def tp_post_desc_def rx_post_def tp_post_def rx_img_ref_def tp_img_ref_def
  rx_tbl_ref_def tp_tbl_ref_def rx_emph_def tp_emph_def cjk_def alnum_def rx_cjk_latin_def
  rx_latin_cjk_def tp_spaced_def rx_collapse_def tp_joined_def rx_invisible_def tp_invisible_def
  rx_attribution_def tp_attribution_def rx_directive_def tp_wrap_def footnoteCaptureRegex_def
  cTen_def cFig_def cTbl_def cColon_def cPilcrow_def

lemmas tree_eval =
  elem_def text_node_def html_node_def set_value_def set_children_def
  regex_def regex_with_def regex_child_def pure_pass_def rx_pass_def passes_def
  decode_child_def visitor_def is_visited_def visit_node.simps
  transformCustomFootnotes_def splice.simps custom_match_def ends_with_def starts_with_def
  footnoteRegex_def parts_loop.simps js_nth_def reference_def show_nat.simps
  imgRegex_def floatClass_def altText_def figureHtml_def rewrite_url_def
  tblRegex_def first_row_def push_caption_def tbl_caption_def digits_def numberToChinese.simps
  init_state_def Let_def upt_rec





lemma par_ab:
  "visit_node init_state (elem Paragraph [text_node (asc ''x[^a]y[^b]'')])
   = Inr (st_ab,
          elem Paragraph [text_node (asc ''x''), html_node (reference 1),
                          text_node (asc ''y''), html_node (reference 2)])"
  by (simp add: rx_fast tree_eval st_ab_def del: scan.simps(2))


text \<open>The visit of a container that is not a visited node.\<close>

lemma visit_elem:
  "\<not> is_visited k \<Longrightarrow>
     visit_node st (elem k cs)
     = (case visit_list st cs of Inl e \<Rightarrow> Inl e | Inr (st', cs') \<Rightarrow> Inr (st', elem k cs'))"
  by (simp add: visit_node.simps elem_def set_children_def split: sum.splits)

lemma visit_two_markers:
  "visit_node init_state (elem Root [elem Paragraph [text_node (asc ''x[^a]y[^b]'')]])
   = Inr (\<lparr>imgNum = 0, tblNum = 0, footNoteNum = 2,
            collectedFootnotes = [\<lparr>num = 1, content = Str (asc ''a'')\<rparr>,
                                  \<lparr>num = 2, content = Str (asc ''b'')\<rparr>]\<rparr>,
          elem Root [elem Paragraph [text_node (asc ''x''), html_node (reference 1),
                                     text_node (asc ''y''), html_node (reference 2)]])"
proof -
  have "\<not> is_visited Root" by (simp add: is_visited_def)
  from visit_elem [OF this] show ?thesis
    by (simp only: visit_list.simps par_ab sum.case prod.case st_ab_def)
qed

lemma markdownReplace_two_markers:
  "markdownReplace two_markers
   = Inr (st_ab,
          elem Root [elem Paragraph [text_node (asc ''x''), html_node (reference 1),
                                     text_node (asc ''y''), html_node (reference 2 @ [cPilcrow])],
                     divider,
                     footnote_block \<lparr>num = 1, content = Str (asc ''a'')\<rparr>,
                     footnote_block \<lparr>num = 2, content = Str (asc ''b'')\<rparr>])"
  unfolding markdownReplace_def two_markers_def visit_two_markers
  by (simp add: st_ab_def elem_def trailing_mark_def has_content_def add_mark_def footnote_section_def
        set_children_def set_value_def html_node_def text_node_def)

theorem footnote_numbers_consecutive_witness:
  "markdownReplace two_markers
   = Inr (st_ab,
          elem Root [elem Paragraph [text_node (asc ''x''), html_node (reference 1),
                                     text_node (asc ''y''), html_node (reference 2 @ [cPilcrow])],
                     divider,
                     footnote_block \<lparr>num = 1, content = Str (asc ''a'')\<rparr>,
                     footnote_block \<lparr>num = 2, content = Str (asc ''b'')\<rparr>])
   \<and> fn_inv st_ab
   \<and> map num (collectedFootnotes st_ab) = [1, 2]
   \<and> distinct (map (\<lambda>f. fwd_id (num f)) (collectedFootnotes st_ab))
   \<and> distinct (map (\<lambda>f. bwd_id (num f)) (collectedFootnotes st_ab))
   \<and> footnote_section (collectedFootnotes st_ab) ! 2
       = footnote_block \<lparr>num = 2, content = content (collectedFootnotes st_ab ! 1)\<rparr>
   \<and> (\<exists>more. collectedFootnotes st_ab = collectedFootnotes init_state @ more)"
proof -
  let ?tree' = "elem Root [elem Paragraph [text_node (asc ''x''), html_node (reference 1),
                                     text_node (asc ''y''), html_node (reference 2 @ [cPilcrow])],
                     divider,
                     footnote_block \<lparr>num = 1, content = Str (asc ''a'')\<rparr>,
                     footnote_block \<lparr>num = 2, content = Str (asc ''b'')\<rparr>]"
  let ?tree1 = "elem Root [elem Paragraph [text_node (asc ''x''), html_node (reference 1),
                                     text_node (asc ''y''), html_node (reference 2)]]"
  let ?p = "elem Paragraph [text_node (asc ''x'')]"
  have m: "markdownReplace two_markers = Inr (st_ab, ?tree')" by (rule markdownReplace_two_markers)
  have v: "fn_inv init_state \<and> visit_node init_state two_markers = Inr (st_ab, ?tree1)"
    using visit_two_markers by (simp add: fn_inv_init two_markers_def st_ab_def)
  have p: "fn_inv init_state \<and> footnoteRegex \<in> set passes
           \<and> footnoteRegex init_state ?p = Inr (init_state, [text_node (asc ''x'')])"
    by (simp add: fn_inv_init passes_def footnoteRegex_def elem_def text_node_def rx_eval)
  note t = footnote_numbers_consecutive [of two_markers st_ab ?tree' init_state two_markers st_ab ?tree1
      footnoteRegex ?p init_state "[text_node (asc ''x'')]" 1 "\<lparr>num = 1, content = Str (asc ''a'')\<rparr>"]
  note t1 = t [THEN conjunct1, THEN mp, OF m]
  note t2 = t [THEN conjunct2, THEN conjunct1, THEN mp, OF v]
  note t3 = t [THEN conjunct2, THEN conjunct2, THEN conjunct1, THEN mp, OF p]
  have l: "length (collectedFootnotes st_ab) = 2" by (simp add: st_ab_def)
  have "map num (collectedFootnotes st_ab) = [1, 2]"
    using t1 [THEN conjunct1] by (simp add: l upt_rec)
  moreover have "footnote_section (collectedFootnotes st_ab) ! 2
       = footnote_block \<lparr>num = 2, content = content (collectedFootnotes st_ab ! 1)\<rparr>"
    using t1 [THEN conjunct2, THEN conjunct2, THEN conjunct2, THEN conjunct2, THEN conjunct2,
              rule_format, of 1] l
    by (simp add: numeral_2_eq_2)
  ultimately show ?thesis
    using m t1 t2 by simp
qed

section \<open>Inline pattern splicer: properties\<close>






lemma is_text_spliced [simp]: "is_text (spliced before l)"
  by (simp add: is_text_def spliced_def text_node_def)


lemma set_value_twice [simp]: "set_value (set_value n a) b = set_value n b"
  by (simp add: set_value_def)

lemma set_value_fields [simp]:
  "ntype (set_value n v) = ntype n" "nvalue (set_value n v) = v"
  by (simp_all add: set_value_def)











section \<open>Pattern rewriter: the contract\<close>





section \<open>Table numbering: the contract\<close>









section \<open>Properties that the passes keep\<close>

lemma ntype_set_value [simp]: "ntype (set_value n v) = ntype n"
  by (simp add: set_value_def)

lemma ntype_set_children [simp]: "ntype (set_children n cs) = ntype n"
  by (simp add: set_children_def)

lemma nchildren_set_children [simp]: "nchildren (set_children n cs) = Some cs"
  by (simp add: set_children_def)

lemma nchildren_set_value [simp]: "nchildren (set_value n v) = nchildren n"
  by (simp add: set_value_def)

lemma ntype_leaf [simp]: "ntype (text_node v) = Text" "ntype (html_node v) = Html"
  by (simp_all add: text_node_def html_node_def)

lemma img_free_leaf [simp]: "img_free (text_node v)" "img_free (html_node v)"
  by (simp_all add: text_node_def html_node_def)



lemma img_free_set_value [simp]: "img_free (set_value n v) = img_free n"
  by (cases n; cases "nchildren n") (simp_all add: set_value_def)




























lemma decode_child_kind [simp]: "ntype (decode_child c) = ntype c"
  by (simp add: decode_child_def)

lemma decode_child_img_free [simp]: "img_free (decode_child c) = img_free c"
  by (simp add: decode_child_def)




lemma add_mark_kind [simp]: "ntype (add_mark p) = ntype p"
  by (simp add: add_mark_def Let_def split: option.splits jsval.splits)








section \<open>The walk\<close>


lemma set_children_twice [simp]: "set_children (set_children n a) b = set_children n b"
  by (simp add: set_children_def)



lemma no_visited_set_value [simp]: "no_visited (set_value n v) = no_visited n"
  by (cases n; cases "nchildren n") (simp_all add: set_value_def)

lemma no_visited_leaf [simp]: "no_visited (text_node v)" "no_visited (html_node v)"
  by (simp_all add: text_node_def html_node_def is_visited_def)














lemma is_image_leaf [simp]: "\<not> is_image (text_node v)" "\<not> is_image (html_node v)"
  by (simp_all add: is_image_def)

lemma is_image_set_value [simp]: "is_image (set_value n v) = is_image n"
  by (simp add: is_image_def)













lemma no_visited_decode [simp]: "no_visited (decode_child c) = no_visited c"
  by (simp add: decode_child_def)




section \<open>Figure numbering: the traversal\<close>





section \<open>Footnote collector: the traversal\<close>






section \<open>A second run of the pipeline\<close>






end
